theory Spec2Isabelle
  imports Complex_Main
begin

section \<open>Bit-field codec (core/packet\_utils.py)\<close>

text \<open>
  Python strings are modelled as \<open>string\<close>; the model is faithful on ASCII text (every
  character a code point below 128), which is what telegrams and CSV cells hold.
  Python \<open>int\<close> is \<open>int\<close>. Exceptions are values of \<open>error\<close>.
\<close>

datatype error = ValueError | TypeError | KeyError | IndexError

text \<open>\<^verbatim>\<open>d.get(k, default)\<close> on a dictionary.\<close>

definition dict_get :: "('k \<rightharpoonup> 'v) \<Rightarrow> 'k \<Rightarrow> 'v \<Rightarrow> 'v" where
  "dict_get d k dflt = (case d k of None \<Rightarrow> dflt | Some v \<Rightarrow> v)"

subsection \<open>PacketUtils.int\_to\_bin\<close>

text \<open>
  \<^verbatim>\<open>f"{val:b}"\<close> of a non-negative integer: its binary digits, most significant first,
  without leading zeros (\<open>"0"\<close> for zero).
\<close>

fun bin_digits :: "nat \<Rightarrow> string" where
  "bin_digits n =
     (if n < 2 then [if n = 0 then CHR ''0'' else CHR ''1'']
      else bin_digits (n div 2) @ [if n mod 2 = 0 then CHR ''0'' else CHR ''1''])"

declare bin_digits.simps [simp del]

text \<open>
  \<^verbatim>\<open>f"{val:0{bits}b}"\<close>: sign-aware zero padding to a minimum width of \<open>bits\<close>. A negative
  value prints a minus sign first, which counts towards the width, then the zeros, then the
  digits of the absolute value.
\<close>

definition format_0b :: "int \<Rightarrow> nat \<Rightarrow> string" where
  "format_0b val bits =
     (let sign = (if val < 0 then ''-'' else '''');
          digs = bin_digits (nat \<bar>val\<bar>)
      in sign @ replicate (bits - (length sign + length digs)) CHR ''0'' @ digs)"

text \<open>
  \<^verbatim>\<open>s[-bits:]\<close>: the last \<open>bits\<close> characters, the whole string when it is shorter, and
  (Python's \<^verbatim>\<open>s[-0:]\<close>) the whole string when \<open>bits\<close> is zero.
\<close>

definition last_chars :: "nat \<Rightarrow> string \<Rightarrow> string" where
  "last_chars bits s = (if bits = 0 then s else drop (length s - bits) s)"

text \<open>
  \<^verbatim>\<open>int_to_bin(value, bits)\<close> on an integer \<open>value\<close>: there \<^verbatim>\<open>int(value)\<close> is the value
  itself and the \<^verbatim>\<open>except ValueError\<close> branch is not taken.
\<close>

definition int_to_bin :: "int \<Rightarrow> nat \<Rightarrow> string" where
  "int_to_bin val bits = last_chars bits (format_0b val bits)"

subsection \<open>PacketUtils.bin\_to\_int\<close>

definition is_bit :: "char \<Rightarrow> bool" where
  "is_bit c \<longleftrightarrow> c = CHR ''0'' \<or> c = CHR ''1''"

definition bitstring :: "string \<Rightarrow> bool" where
  "bitstring s \<longleftrightarrow> list_all is_bit s"

definition bits_value :: "string \<Rightarrow> int" where
  "bits_value s = foldl (\<lambda>a c. 2 * a + (if c = CHR ''1'' then 1 else 0)) 0 s"

text \<open>
  \<^verbatim>\<open>int(bin_str, 2)\<close> on a non-empty string of binary digits is its base-2 value. On any
  other string Python either raises \<^verbatim>\<open>ValueError\<close> or, for the few literal forms with a
  sign, an underscore, a \<^verbatim>\<open>0b\<close> prefix or surrounding blanks, parses by further rules;
  those forms are not modelled and fall under \<open>ValueError\<close> here.
\<close>

definition bin_to_int :: "string \<Rightarrow> error + int" where
  "bin_to_int bin_str =
     (if bin_str = [] then Inr 0
      else if bitstring bin_str then Inr (bits_value bin_str)
      else Inl ValueError)"

subsection \<open>PACKET\_DEFS\<close>

text \<open>
  A presence condition is one of the two lambdas of the table:
  \<^verbatim>\<open>lambda d: d.get(NAME) == VALUE\<close> and \<^verbatim>\<open>lambda d: False\<close>.
\<close>

datatype cond = GetEq string int | Const_False

type_synonym fields = "string \<rightharpoonup> int"

fun cond_holds :: "cond \<Rightarrow> fields \<Rightarrow> bool" where
  "cond_holds (GetEq k v) d = (d k = Some v)"
| "cond_holds Const_False d = False"

text \<open>
  One entry of a packet definition. The keys \<^verbatim>\<open>desc\<close> and \<^verbatim>\<open>optional\<close> are display and
  template metadata that neither \<^verbatim>\<open>encode_packet\<close> nor \<^verbatim>\<open>decode_packet\<close> reads.
\<close>

record field =
  fname :: string
  flen :: nat
  fval :: "int option"
  fcond :: "cond option"

definition plain :: "string \<Rightarrow> nat \<Rightarrow> field" where
  "plain n l = \<lparr>fname = n, flen = l, fval = None, fcond = None\<rparr>"

definition fixed :: "string \<Rightarrow> nat \<Rightarrow> int \<Rightarrow> field" where
  "fixed n l v = \<lparr>fname = n, flen = l, fval = Some v, fcond = None\<rparr>"

definition guarded :: "string \<Rightarrow> nat \<Rightarrow> cond \<Rightarrow> field" where
  "guarded n l c = \<lparr>fname = n, flen = l, fval = None, fcond = Some c\<rparr>"

definition ETCS_5 :: "field list" where
  "ETCS_5 =
    [fixed ''NID_PACKET'' 8 5, plain ''Q_DIR'' 2, plain ''Q_SCALE'' 2, plain ''D_LINK'' 15,
     plain ''Q_NEWCOUNTRY'' 1, guarded ''NID_C'' 10 (GetEq ''Q_NEWCOUNTRY'' 1),
     plain ''NID_BG'' 14, plain ''Q_LINKORIENTATION'' 1, plain ''Q_LINKREACTION'' 2,
     plain ''Q_LOCACC'' 6, plain ''N_ITER'' 5]"

definition CTCS_1 :: "field list" where
  "CTCS_1 =
    [fixed ''NID_XUSER'' 9 1, plain ''Q_DIR'' 2, plain ''Q_SCALE'' 2, plain ''NID_SIGNAL'' 4,
     plain ''NID_FREQUENCY'' 5, plain ''D_SIGNAL'' 15, plain ''L_SECTION'' 15,
     plain ''N_ITER'' 5]"

definition ETCS_21 :: "field list" where
  "ETCS_21 =
    [fixed ''NID_PACKET'' 8 21, plain ''Q_DIR'' 2, plain ''Q_SCALE'' 2,
     plain ''D_GRADIENT'' 15, plain ''Q_GDIR'' 1, plain ''G_A'' 8, plain ''N_ITER'' 5]"

definition ETCS_27 :: "field list" where
  "ETCS_27 =
    [fixed ''NID_PACKET'' 8 27, plain ''Q_DIR'' 2, plain ''Q_SCALE'' 2, plain ''D_STATIC'' 15,
     plain ''V_STATIC'' 7, plain ''Q_FRONT'' 1, fixed ''NC_DIFF'' 4 0,
     guarded ''V_DIFF'' 7 Const_False, plain ''N_ITER'' 5]"

definition ETCS_41 :: "field list" where
  "ETCS_41 =
    [fixed ''NID_PACKET'' 8 41, plain ''Q_DIR'' 2, plain ''Q_SCALE'' 2,
     plain ''D_LEVELTR'' 15, plain ''M_LEVELTR'' 3,
     guarded ''NID_STM'' 8 (GetEq ''M_LEVELTR'' 1), plain ''L_ACKLEVELTR'' 15,
     plain ''N_ITER'' 5]"

definition CTCS_2 :: "field list" where
  "CTCS_2 =
    [fixed ''NID_XUSER'' 9 2, plain ''Q_DIR'' 2, plain ''Q_SCALE'' 2, plain ''V_TSR'' 7,
     plain ''D_TSR'' 15, plain ''L_TSR'' 15, plain ''L_TSRarea'' 15, plain ''N_ITER'' 5]"

definition CTCS_4 :: "field list" where
  "CTCS_4 =
    [fixed ''NID_XUSER'' 9 4, plain ''Q_DIR'' 2, plain ''Q_SCALE'' 2, plain ''D_TURNOUT'' 15,
     plain ''V_TURNOUT'' 7]"

definition CTCS_5 :: "field list" where
  "CTCS_5 = [fixed ''NID_XUSER'' 9 5, plain ''Q_DIR'' 2, plain ''Q_STOP'' 1]"

definition ETCS_68 :: "field list" where
  "ETCS_68 =
    [fixed ''NID_PACKET'' 8 68, plain ''Q_DIR'' 2, plain ''Q_SCALE'' 2,
     plain ''Q_TRACKINIT'' 1,
     guarded ''D_TRACKINIT'' 15 (GetEq ''Q_TRACKINIT'' 1),
     guarded ''M_TRACKCOND'' 4 (GetEq ''Q_TRACKINIT'' 0),
     guarded ''D_TRACKCOND'' 15 (GetEq ''Q_TRACKINIT'' 0),
     guarded ''L_TRACKCOND'' 15 (GetEq ''Q_TRACKINIT'' 0),
     guarded ''N_ITER'' 5 (GetEq ''Q_TRACKINIT'' 0)]"

definition ETCS_79 :: "field list" where
  "ETCS_79 =
    [fixed ''NID_PACKET'' 8 79, plain ''Q_DIR'' 2, plain ''Q_SCALE'' 2,
     plain ''Q_NEWCOUNTRY'' 1, guarded ''NID_C'' 10 (GetEq ''Q_NEWCOUNTRY'' 1),
     plain ''M_POSITION'' 20, plain ''Q_MPOSITION'' 1, plain ''D_POSOFF'' 15,
     plain ''N_ITER'' 5]"

definition PACKET_DEFS :: "string \<rightharpoonup> field list" where
  "PACKET_DEFS =
     [''ETCS-5'' \<mapsto> ETCS_5, ''CTCS-1'' \<mapsto> CTCS_1, ''ETCS-21'' \<mapsto> ETCS_21,
      ''ETCS-27'' \<mapsto> ETCS_27, ''ETCS-41'' \<mapsto> ETCS_41, ''CTCS-2'' \<mapsto> CTCS_2,
      ''CTCS-4'' \<mapsto> CTCS_4, ''CTCS-5'' \<mapsto> CTCS_5, ''ETCS-68'' \<mapsto> ETCS_68,
      ''ETCS-79'' \<mapsto> ETCS_79]"

subsection \<open>encode\_packet\<close>

text \<open>
  \<^verbatim>\<open>if "cond" in field: if not field["cond"](d): continue\<close>: a field takes part when it
  has no condition or its condition holds on \<open>d\<close>.
\<close>

definition present :: "field \<Rightarrow> fields \<Rightarrow> bool" where
  "present f d = (case fcond f of None \<Rightarrow> True | Some c \<Rightarrow> cond_holds c d)"

text \<open>
  The loop of \<^verbatim>\<open>encode_packet\<close>; \<open>data\<close> is \<^verbatim>\<open>processed_data\<close>, the copy of the input
  that the loop never changes, and \<open>bin_str\<close> the string built so far.
\<close>

fun encode_fields :: "field list \<Rightarrow> fields \<Rightarrow> string \<Rightarrow> string" where
  "encode_fields [] data bin_str = bin_str"
| "encode_fields (f # fs) data bin_str =
     (if \<not> present f data then encode_fields fs data bin_str
      else
        let v = (case fval f of Some x \<Rightarrow> x | None \<Rightarrow> dict_get data (fname f) 0)
        in encode_fields fs data (bin_str @ int_to_bin v (flen f)))"

definition encode_packet :: "string \<Rightarrow> fields \<Rightarrow> string" where
  "encode_packet packet_name data =
     (case PACKET_DEFS packet_name of
        None \<Rightarrow> ''''
      | Some defs \<Rightarrow> if defs = [] then '''' else encode_fields defs data '''')"

subsection \<open>decode\_packet\<close>

text \<open>
  The state of the decoding loop: the dictionary \<^verbatim>\<open>result\<close>, the read position
  \<^verbatim>\<open>ptr\<close>, and whether \<^verbatim>\<open>break\<close> has left the loop.
\<close>

record dstate =
  result :: fields
  ptr :: nat
  stopped :: bool

text \<open>One iteration of the loop body on the field \<open>f\<close>.\<close>

definition decode_field :: "field \<Rightarrow> string \<Rightarrow> dstate \<Rightarrow> error + dstate" where
  "decode_field f bin_str st =
     (if \<not> present f (result st) then Inr st
      else if ptr st + flen f > length bin_str then Inr (st\<lparr>stopped := True\<rparr>)
      else
        (case bin_to_int (take (flen f) (drop (ptr st) bin_str)) of
           Inl e \<Rightarrow> Inl e
         | Inr v \<Rightarrow>
             Inr (st\<lparr>result := (result st)(fname f \<mapsto> v), ptr := ptr st + flen f\<rparr>)))"

fun decode_fields :: "field list \<Rightarrow> string \<Rightarrow> dstate \<Rightarrow> error + dstate" where
  "decode_fields [] bin_str st = Inr st"
| "decode_fields (f # fs) bin_str st =
     (if stopped st then Inr st
      else
        (case decode_field f bin_str st of
           Inl e \<Rightarrow> Inl e
         | Inr st' \<Rightarrow> decode_fields fs bin_str st'))"

text \<open>
  The value \<^verbatim>\<open>decode_packet\<close> returns: \<^verbatim>\<open>{"raw": bin_str}\<close> for an unknown packet name,
  the dictionary of decoded integers otherwise.
\<close>

datatype decoded = Raw string | Decoded fields

definition dstate0 :: dstate where
  "dstate0 = \<lparr>result = Map.empty, ptr = 0, stopped = False\<rparr>"

definition decode_packet :: "string \<Rightarrow> string \<Rightarrow> error + decoded" where
  "decode_packet packet_name bin_str =
     (case PACKET_DEFS packet_name of
        None \<Rightarrow> Inr (Raw bin_str)
      | Some defs \<Rightarrow>
          if defs = [] then Inr (Raw bin_str)
          else
            (case decode_fields defs bin_str dstate0 of
               Inl e \<Rightarrow> Inl e
             | Inr st \<Rightarrow> Inr (Decoded (result st))))"

subsection \<open>Auxiliary notions for the codec proofs\<close>

text \<open>Every value of \<open>d\<close> belongs to a field of \<open>F\<close> and fits its width.\<close>

definition fields_within :: "field list \<Rightarrow> fields \<Rightarrow> bool" where
  "fields_within F d \<longleftrightarrow> (\<forall>n v. d n = Some v \<longrightarrow> (\<exists>f\<in>set F. fname f = n \<and> 0 \<le> v \<and> v < 2 ^ flen f))"

text \<open>
  The decoding loop read from the front of the unread rest of the string instead of through
  the position \<^verbatim>\<open>ptr\<close>; \<open>decode_fields_front\<close> below shows that \<open>decode_fields\<close>
  computes the same dictionary. It is used in the round-trip proof only.
\<close>

fun dec_front :: "field list \<Rightarrow> string \<Rightarrow> fields \<Rightarrow> error + fields" where
  "dec_front [] s r = Inr r"
| "dec_front (f # fs) s r =
     (if \<not> present f r then dec_front fs s r
      else if length s < flen f then Inr r
      else
        (case bin_to_int (take (flen f) s) of
           Inl e \<Rightarrow> Inl e
         | Inr v \<Rightarrow> dec_front fs (drop (flen f) s) (r(fname f \<mapsto> v))))"

declare dec_front.simps(2) [simp del]

definition fits :: "fields \<Rightarrow> string \<Rightarrow> nat \<Rightarrow> bool" where
  "fits V n k \<longleftrightarrow> (\<forall>v. V n = Some v \<longrightarrow> 0 \<le> v \<and> v < 2 ^ k)"

text \<open>
  \<open>fits V n k\<close>: the value of \<open>n\<close> in \<open>V\<close>, if any, is a non-negative integer of at
  most \<open>k\<close> bits. \<open>all_fit\<close> says so of every field of a definition, and
  \<open>reproduces defs V d\<close> that \<open>d\<close> returns every value of \<open>V\<close> under a field of
  \<open>defs\<close> that has no fixed value and is present under \<open>V\<close>.
\<close>

definition reproduces :: "field list \<Rightarrow> fields \<Rightarrow> fields \<Rightarrow> bool" where
  "reproduces defs V d \<longleftrightarrow>
     (\<forall>f\<in>set defs. \<forall>v. fval f = None \<longrightarrow> present f V \<longrightarrow> V (fname f) = Some v
        \<longrightarrow> d (fname f) = Some v)"

definition all_fit :: "field list \<Rightarrow> fields \<Rightarrow> bool" where
  "all_fit defs V \<longleftrightarrow> (\<forall>f\<in>set defs. fits V (fname f) (flen f))"

section \<open>Balise records and group assignment (core/config\_manager.py)\<close>

subsection \<open>Python values and built-ins\<close>

text \<open>
  The values a balise dictionary holds: text (CSV cells, dialog fields), integers
  (\<^verbatim>\<open>type\<close>) and floats (\<^verbatim>\<open>location\<close>). A float is modelled by the real number it
  denotes; rounding is not modelled.
\<close>

datatype pyval = StrV string | IntV int | FloatV real

type_synonym balise = "string \<rightharpoonup> pyval"

text \<open>
  Two built-ins are not modelled and are parameters of every function that calls them:
  \<^verbatim>\<open>str(x)\<close> of a float \<open>x\<close> and \<^verbatim>\<open>float(s)\<close> of a string \<open>s\<close> (\<open>None\<close> where Python
  raises \<^verbatim>\<open>ValueError\<close>).
\<close>

record builtins =
  float_str :: "real \<Rightarrow> string"
  float_of_str :: "string \<Rightarrow> real option"

definition digit_char :: "nat \<Rightarrow> char" where
  "digit_char d = char_of (48 + d)"

fun dec_digits :: "nat \<Rightarrow> string" where
  "dec_digits n =
     (if n < 10 then [digit_char n] else dec_digits (n div 10) @ [digit_char (n mod 10)])"

declare dec_digits.simps [simp del]

text \<open>\<^verbatim>\<open>str(x)\<close>.\<close>

fun py_str :: "builtins \<Rightarrow> pyval \<Rightarrow> string" where
  "py_str py (StrV s) = s"
| "py_str py (IntV i) = (if i < 0 then ''-'' else '''') @ dec_digits (nat \<bar>i\<bar>)"
| "py_str py (FloatV r) = float_str py r"

text \<open>
  \<^verbatim>\<open>s.strip()\<close> and \<^verbatim>\<open>s.isdigit()\<close> on ASCII text. Python's white space below code point
  128 is the characters 9 to 13, 28 to 31 and the blank.
\<close>

definition is_space :: "char \<Rightarrow> bool" where
  "is_space c \<longleftrightarrow>
     (let n = (of_char c :: nat) in (9 \<le> n \<and> n \<le> 13) \<or> (28 \<le> n \<and> n \<le> 32))"

definition strip :: "string \<Rightarrow> string" where
  "strip s = rev (dropWhile is_space (rev (dropWhile is_space s)))"

definition is_digit :: "char \<Rightarrow> bool" where
  "is_digit c \<longleftrightarrow> (let n = (of_char c :: nat) in 48 \<le> n \<and> n \<le> 57)"

definition isdigit :: "string \<Rightarrow> bool" where
  "isdigit s \<longleftrightarrow> s \<noteq> [] \<and> list_all is_digit s"

text \<open>\<^verbatim>\<open>int(s)\<close> on a string of decimal digits.\<close>

definition dec_value :: "string \<Rightarrow> int" where
  "dec_value s = foldl (\<lambda>a c. 10 * a + (int (of_char c) - 48)) 0 s"

text \<open>
  \<^verbatim>\<open>int(x)\<close>. On a string Python skips white space at both ends and reads an optional sign
  and decimal digits. Below code point 128 the white space that \<^verbatim>\<open>int\<close> skips is the
  characters 9 to 13 and the blank only: the characters 28 to 31, which \<^verbatim>\<open>strip\<close> removes,
  make \<^verbatim>\<open>int\<close> raise \<^verbatim>\<open>ValueError\<close>. The literal forms with underscores between digits are
  not modelled and fall under \<^verbatim>\<open>ValueError\<close> here. A float is truncated towards zero.
\<close>

definition is_int_space :: "char \<Rightarrow> bool" where
  "is_int_space c \<longleftrightarrow> (let n = (of_char c :: nat) in (9 \<le> n \<and> n \<le> 13) \<or> n = 32)"

definition int_strip :: "string \<Rightarrow> string" where
  "int_strip s = rev (dropWhile is_int_space (rev (dropWhile is_int_space s)))"

fun py_int :: "pyval \<Rightarrow> error + int" where
  "py_int (IntV i) = Inr i"
| "py_int (FloatV r) = Inr (if 0 \<le> r then \<lfloor>r\<rfloor> else \<lceil>r\<rceil>)"
| "py_int (StrV s) =
     (let t = int_strip s in
      if isdigit t then Inr (dec_value t)
      else
        (case t of
           c # ds \<Rightarrow>
             if c = CHR ''+'' \<and> isdigit ds then Inr (dec_value ds)
             else if c = CHR ''-'' \<and> isdigit ds then Inr (- dec_value ds)
             else Inl ValueError
         | [] \<Rightarrow> Inl ValueError))"

subsection \<open>ConfigManager.process\_balise\_groups\<close>

text \<open>
  The function mutates the dictionaries of the list \<^verbatim>\<open>balises\<close> in place, and the groups
  hold references to these same dictionaries. The model passes the roster as a list and
  refers to a dictionary by its position in the roster, so that a write through a group is a
  write into the roster.
\<close>

text \<open>\<^verbatim>\<open>str(balise.get("father_balise", "")).strip()\<close>\<close>

definition father_id :: "builtins \<Rightarrow> balise \<Rightarrow> string" where
  "father_id py b = strip (py_str py (dict_get b ''father_balise'' (StrV '''')))"

text \<open>\<^verbatim>\<open>str(b.get("sub_id", "")).strip()\<close>\<close>

definition sub_id_text :: "builtins \<Rightarrow> balise \<Rightarrow> string" where
  "sub_id_text py b = strip (py_str py (dict_get b ''sub_id'' (StrV '''')))"

text \<open>
  The dictionary \<^verbatim>\<open>groups\<close>, in insertion order: each father id with the positions of its
  members. \<open>groups_append\<close> is
  \<^verbatim>\<open>if father_id not in groups: groups[father_id] = []; groups[father_id].append(balise)\<close>.
\<close>

type_synonym groups = "(string \<times> nat list) list"

fun groups_append :: "groups \<Rightarrow> string \<Rightarrow> nat \<Rightarrow> groups" where
  "groups_append [] k i = [(k, [i])]"
| "groups_append ((k', members) # gs) k i =
     (if k' = k then (k', members @ [i]) # gs else (k', members) # groups_append gs k i)"

text \<open>The four writes of the branch \<^verbatim>\<open># No father, treat as single\<close>.\<close>

definition single :: "balise \<Rightarrow> balise" where
  "single b =
     b(''sub_id'' \<mapsto> StrV ''0'', ''n_pig'' \<mapsto> StrV ''000'', ''n_total'' \<mapsto> StrV ''1'',
       ''q_link'' \<mapsto> StrV ''0'')"

text \<open>The first loop, over the positions of the roster that are still to be visited.\<close>

fun group_by_father ::
  "builtins \<Rightarrow> nat list \<Rightarrow> balise list \<times> groups \<Rightarrow> balise list \<times> groups" where
  "group_by_father py [] st = st"
| "group_by_father py (i # rest) (bs, gs) =
     (let father = father_id py (bs ! i) in
      if father \<noteq> [] then group_by_father py rest (bs, groups_append gs father i)
      else group_by_father py rest (bs[i := single (bs ! i)], gs))"

text \<open>
  Step 1: the set \<^verbatim>\<open>used_ids\<close>, kept as a list; \<open>List.insert\<close> is \<^verbatim>\<open>used_ids.add\<close>.
\<close>

fun used_ids_of :: "builtins \<Rightarrow> balise list \<Rightarrow> nat list \<Rightarrow> int list \<Rightarrow> int list" where
  "used_ids_of py bs [] used = used"
| "used_ids_of py bs (i # rest) used =
     (let sid = sub_id_text py (bs ! i) in
      if isdigit sid then used_ids_of py bs rest (List.insert (dec_value sid) used)
      else used_ids_of py bs rest used)"

text \<open>\<^verbatim>\<open>while next_id in used_ids: next_id += 1\<close>\<close>

function next_free :: "int list \<Rightarrow> int \<Rightarrow> int" where
  "next_free used next_id =
     (if next_id \<in> set used then next_free used (next_id + 1) else next_id)"
  by pat_completeness auto
termination
proof (relation "measure (\<lambda>(used, n). length (filter (\<lambda>x. n \<le> x) used))")
  show "wf (measure (\<lambda>(used, n). length (filter (\<lambda>x. n \<le> x) (used :: int list))))"
    by simp
next
  fix used :: "int list" and next_id :: int
  assume "next_id \<in> set used"
  then have "length (filter (\<lambda>x. next_id + 1 \<le> x) used)
      < length (filter (\<lambda>x. next_id \<le> x) used)"
  proof (induction used)
    case Nil
    then show ?case by simp
  next
    case (Cons a used)
    have mono: "length (filter (\<lambda>x. next_id + 1 \<le> x) used)
        \<le> length (filter (\<lambda>x. next_id \<le> x) used)"
      by (induction used) auto
    show ?case
    proof (cases "a = next_id")
      case True
      with mono show ?thesis by simp
    next
      case False
      with Cons show ?thesis by auto
    qed
  qed
  then show "((used, next_id + 1), (used, next_id))
      \<in> measure (\<lambda>(used, n). length (filter (\<lambda>x. n \<le> x) used))"
    by simp
qed

declare next_free.simps [simp del]

text \<open>Step 2: fill the missing sub ids; the state is the roster, \<^verbatim>\<open>next_id\<close> and \<^verbatim>\<open>used_ids\<close>.\<close>

fun fill_missing ::
  "builtins \<Rightarrow> nat list \<Rightarrow> balise list \<times> int \<times> int list \<Rightarrow> balise list \<times> int \<times> int list"
  where
  "fill_missing py [] st = st"
| "fill_missing py (i # rest) (bs, next_id, used) =
     (let sid = sub_id_text py (bs ! i) in
      if sid = [] \<or> \<not> isdigit sid then
        (let n = next_free used next_id in
         fill_missing py rest
           (bs[i := (bs ! i)(''sub_id'' \<mapsto> StrV (py_str py (IntV n)))], n, List.insert n used))
      else fill_missing py rest (bs, next_id, used))"

text \<open>
  Step 3. \<open>n_pig_of b\<close> is the \<^verbatim>\<open>try\<close> block: \<^verbatim>\<open>f"{s_id:03b}"\<close> of
  \<^verbatim>\<open>int(b.get("sub_id", 0))\<close>, and \<^verbatim>\<open>"000"\<close> on \<^verbatim>\<open>ValueError\<close>.
\<close>

definition n_pig_of :: "balise \<Rightarrow> string" where
  "n_pig_of b =
     (case py_int (dict_get b ''sub_id'' (IntV 0)) of
        Inr s_id \<Rightarrow> format_0b s_id 3
      | Inl e \<Rightarrow> ''000'')"

definition q_link_of :: "nat \<Rightarrow> string" where
  "q_link_of count = (if 2 \<le> count then ''1'' else ''0'')"

fun update_group :: "builtins \<Rightarrow> nat \<Rightarrow> nat list \<Rightarrow> balise list \<Rightarrow> balise list" where
  "update_group py count [] bs = bs"
| "update_group py count (i # rest) bs =
     (let b1 = (bs ! i)(''n_total'' \<mapsto> StrV (py_str py (IntV (int count))));
          b2 = b1(''n_pig'' \<mapsto> StrV (n_pig_of b1));
          b3 = b2(''q_link'' \<mapsto> StrV (q_link_of count))
      in update_group py count rest (bs[i := b3]))"

text \<open>The body of \<^verbatim>\<open>for father_id, group in groups.items()\<close> for one group.\<close>

definition process_group :: "builtins \<Rightarrow> nat list \<Rightarrow> balise list \<Rightarrow> balise list" where
  "process_group py grp bs =
     (let count = length grp;
          used_ids = used_ids_of py bs grp [];
          (bs1, next_id, used) = fill_missing py grp (bs, 0, used_ids)
      in update_group py count grp bs1)"

definition process_balise_groups :: "builtins \<Rightarrow> balise list \<Rightarrow> balise list" where
  "process_balise_groups py balises =
     (let (bs1, gs) = group_by_father py [0..<length balises] (balises, [])
      in foldl (\<lambda>bs (father, grp). process_group py grp bs) bs1 gs)"

subsection \<open>SimulationWidget.\_process\_balise\_ids\<close>

text \<open>
  The widget's copy of the same function: it groups and fills the sub ids by the same
  statements, and differs in that it never writes \<^verbatim>\<open>n_pig\<close>.
\<close>

definition single_ids :: "balise \<Rightarrow> balise" where
  "single_ids b =
     b(''sub_id'' \<mapsto> StrV ''0'', ''n_total'' \<mapsto> StrV ''1'', ''q_link'' \<mapsto> StrV ''0'')"

fun group_by_father_ids ::
  "builtins \<Rightarrow> nat list \<Rightarrow> balise list \<times> groups \<Rightarrow> balise list \<times> groups" where
  "group_by_father_ids py [] st = st"
| "group_by_father_ids py (i # rest) (bs, gs) =
     (let father = father_id py (bs ! i) in
      if father \<noteq> [] then group_by_father_ids py rest (bs, groups_append gs father i)
      else group_by_father_ids py rest (bs[i := single_ids (bs ! i)], gs))"

fun update_group_ids :: "builtins \<Rightarrow> nat \<Rightarrow> nat list \<Rightarrow> balise list \<Rightarrow> balise list" where
  "update_group_ids py count [] bs = bs"
| "update_group_ids py count (i # rest) bs =
     (let b1 = (bs ! i)(''n_total'' \<mapsto> StrV (py_str py (IntV (int count))));
          b2 = b1(''q_link'' \<mapsto> StrV (q_link_of count))
      in update_group_ids py count rest (bs[i := b2]))"

definition process_group_ids :: "builtins \<Rightarrow> nat list \<Rightarrow> balise list \<Rightarrow> balise list" where
  "process_group_ids py grp bs =
     (let used_ids = used_ids_of py bs grp [];
          (bs1, next_id, used) = fill_missing py grp (bs, 0, used_ids);
          count = length grp
      in update_group_ids py count grp bs1)"

definition process_balise_ids :: "builtins \<Rightarrow> balise list \<Rightarrow> balise list" where
  "process_balise_ids py balises =
     (let (bs1, gs) = group_by_father_ids py [0..<length balises] (balises, [])
      in foldl (\<lambda>bs (father, grp). process_group_ids py grp bs) bs1 gs)"

subsection \<open>The dialog's computation of n\_pig (dialogs/balise\_dialog.py)\<close>

text \<open>
  \<^verbatim>\<open>BaliseDialog\<close> derives \<^verbatim>\<open>n_pig\<close> from the sub id by
  \<^verbatim>\<open>bin(sid)[2:].zfill(3)[-3:]\<close>: \<open>py_bin\<close> is \<^verbatim>\<open>bin\<close>, and \<open>zfill\<close> pads with zeros
  on the left, after a leading sign, up to the given width.
\<close>

definition py_bin :: "int \<Rightarrow> string" where
  "py_bin i = (if i < 0 then ''-'' else '''') @ ''0b'' @ bin_digits (nat \<bar>i\<bar>)"

definition zfill :: "nat \<Rightarrow> string \<Rightarrow> string" where
  "zfill width s =
     (case s of
        [] \<Rightarrow> replicate width CHR ''0''
      | c # cs \<Rightarrow>
          if c = CHR ''+'' \<or> c = CHR ''-'' then c # replicate (width - length s) CHR ''0'' @ cs
          else replicate (width - length s) CHR ''0'' @ s)"

definition dialog_n_pig :: "int \<Rightarrow> string" where
  "dialog_n_pig sid = last_chars 3 (zfill 3 (drop 2 (py_bin sid)))"

subsection \<open>Notions used to state and prove the properties of group assignment\<close>

text \<open>
  The sub id of a record as step 1 of the code reads it: the stripped text of \<^verbatim>\<open>sub_id\<close>
  as an integer when it consists of digits, nothing otherwise.
\<close>

definition sub_id_int :: "builtins \<Rightarrow> balise \<Rightarrow> int option" where
  "sub_id_int py b =
     (let sid = sub_id_text py b in if isdigit sid then Some (dec_value sid) else None)"

text \<open>The positions of the records whose stripped \<^verbatim>\<open>father_balise\<close> is \<open>k\<close>.\<close>

definition group_members :: "builtins \<Rightarrow> balise list \<Rightarrow> string \<Rightarrow> nat list" where
  "group_members py bs k = filter (\<lambda>i. father_id py (bs ! i) = k) [0..<length bs]"

text \<open>The numeric sub ids that the records at the positions \<open>grp\<close> bring along.\<close>

definition supplied_ids :: "builtins \<Rightarrow> balise list \<Rightarrow> nat list \<Rightarrow> int list" where
  "supplied_ids py bs grp = List.map_filter (\<lambda>i. sub_id_int py (bs ! i)) grp"

text \<open>Steps 1 and 2 of one group.\<close>

definition fill_group :: "builtins \<Rightarrow> nat list \<Rightarrow> balise list \<Rightarrow> balise list" where
  "fill_group py grp bs = fst (fill_missing py grp (bs, 0, used_ids_of py bs grp []))"

text \<open>
  What step 2 achieves from a roster \<open>bs\<close> and the used ids \<open>used\<close>: only \<^verbatim>\<open>sub_id\<close>
  of members changes, every member ends with a numeric sub id that is either its own or
  new, and the members' ids are pairwise distinct.
\<close>

definition filled :: "builtins \<Rightarrow> nat list \<Rightarrow> int list \<Rightarrow> balise list \<Rightarrow> balise list \<Rightarrow> bool" where
  "filled py grp used bs bs' \<longleftrightarrow>
     length bs' = length bs \<and>
     (\<forall>j. j \<notin> set grp \<longrightarrow> bs' ! j = bs ! j) \<and>
     (\<forall>j k. k \<noteq> ''sub_id'' \<longrightarrow> (bs' ! j) k = (bs ! j) k) \<and>
     (\<forall>i\<in>set grp. \<exists>v. sub_id_int py (bs' ! i) = Some v \<and> 0 \<le> v \<and>
         (sub_id_int py (bs ! i) = Some v \<or> v \<notin> set used)) \<and>
     distinct (map (\<lambda>i. sub_id_int py (bs' ! i)) grp)"

definition good_ids :: "builtins \<Rightarrow> nat list \<Rightarrow> balise list \<Rightarrow> bool" where
  "good_ids py grp bs \<longleftrightarrow>
     (\<forall>i\<in>set grp. \<exists>v. sub_id_int py (bs ! i) = Some v \<and> 0 \<le> v) \<and>
     distinct (map (\<lambda>i. sub_id_int py (bs ! i)) grp)"

text \<open>
  What the body of the loop over the groups has to do to the roster for the proof of the
  loop: it is shown of both \<open>process_group\<close> and \<open>process_group_ids\<close>.
\<close>

definition group_step :: "builtins \<Rightarrow> (nat list \<Rightarrow> balise list \<Rightarrow> balise list) \<Rightarrow> bool" where
  "group_step py step \<longleftrightarrow>
     (\<forall>grp (bs :: balise list). distinct grp \<longrightarrow> (\<forall>i\<in>set grp. i < length bs) \<longrightarrow>
        length (step grp bs) = length bs \<and>
        (\<forall>j. j \<notin> set grp \<longrightarrow> step grp bs ! j = bs ! j) \<and>
        (\<forall>j. (step grp bs ! j) ''father_balise'' = (bs ! j) ''father_balise'') \<and>
        (distinct (supplied_ids py bs grp) \<longrightarrow> good_ids py grp (step grp bs)))"

text \<open>The loop over the groups, and groups whose members are positions of the roster.\<close>

definition fold_groups ::
  "(nat list \<Rightarrow> balise list \<Rightarrow> balise list) \<Rightarrow> balise list \<Rightarrow> groups \<Rightarrow> balise list" where
  "fold_groups step bs gs = foldl (\<lambda>bs (father, grp). step grp bs) bs gs"

definition wf_groups :: "balise list \<Rightarrow> groups \<Rightarrow> bool" where
  "wf_groups bs gs \<longleftrightarrow> (\<forall>g\<in>set gs. distinct (snd g) \<and> (\<forall>i\<in>set (snd g). i < length bs))"

text \<open>
  The first loop with the writes of the no-father branch as a parameter:
  \<open>group_by_father\<close> and \<open>group_by_father_ids\<close> are its two instances.
\<close>

fun group_by_with ::
  "(balise \<Rightarrow> balise) \<Rightarrow> builtins \<Rightarrow> nat list \<Rightarrow> balise list \<times> groups \<Rightarrow> balise list \<times> groups"
  where
  "group_by_with f py [] st = st"
| "group_by_with f py (i # rest) (bs, gs) =
     (let father = father_id py (bs ! i) in
      if father \<noteq> [] then group_by_with f py rest (bs, groups_append gs father i)
      else group_by_with f py rest (bs[i := f (bs ! i)], gs))"

definition members :: "groups \<Rightarrow> string \<Rightarrow> nat list" where
  "members gs k = (case map_of gs k of None \<Rightarrow> [] | Some m \<Rightarrow> m)"

text \<open>
  A stand-in for the two unmodelled built-ins, for evaluating rosters that hold no float.
\<close>

definition py0 :: builtins where
  "py0 = \<lparr>float_str = (\<lambda>r. ''0.0''), float_of_str = (\<lambda>s. None)\<rparr>"

section \<open>Signal authorization and balise passes (widgets/simulation\_widget.py)\<close>

subsection \<open>Trains, restrictions, stations and the widget's state\<close>

text \<open>
  Kilometres and speeds are Python floats. A float is modelled by the real number it denotes
  (there is no NaN and no infinity), so that a comparison of floats is the comparison of
  these reals. Float arithmetic rounds: by IEEE 754, which Python's \<^verbatim>\<open>float\<close> follows, an
  addition, multiplication or division, a conversion from \<^verbatim>\<open>int\<close> and a decimal literal
  each return the rounding of the exact result. The rounding function itself is not
  modelled: it is the parameter \<open>rnd\<close> of every function below that computes with floats,
  \<^verbatim>\<open>x + y\<close> being \<open>rnd (x + y)\<close> and the literal \<^verbatim>\<open>0.1\<close> being \<open>rnd (1 / 10)\<close>. The literals
  \<^verbatim>\<open>0.0\<close>, \<^verbatim>\<open>1.0\<close>, \<^verbatim>\<open>10.0\<close>, \<^verbatim>\<open>350.0\<close> and \<^verbatim>\<open>1000.0\<close> are floats exactly, and so is
  every integer that \<^verbatim>\<open>decode_packet\<close> returns and its product with 5 (all below \<open>2 ^ 53\<close>),
  so these are written without \<open>rnd\<close>. Times are datetimes, modelled as seconds.

  A restriction is the dictionary that \<^verbatim>\<open>handle_balise_pass\<close> appends; \<^verbatim>\<open>end_km\<close> may be
  \<^verbatim>\<open>None\<close>.
\<close>

record restriction =
  r_type :: string
  start_km :: real
  end_km :: "real option"
  speed :: real

text \<open>
  A train dictionary, with the keys these functions read or write. A key that is read with
  \<^verbatim>\<open>train.get\<close> may be absent (\<open>None\<close>); \<open>schedule_managed\<close> is the truth value of
  \<^verbatim>\<open>train.get("schedule_managed", False)\<close>.
\<close>

record train =
  current_location :: "real option"
  base_speed :: "real option"
  current_speed_limit :: "real option"
  active_restrictions :: "restriction list option"
  schedule_managed :: bool
  start_station :: "string option"
  end_station :: "string option"
  start_loc :: "real option"
  end_loc :: "real option"
  dep_start :: "real option"
  dep_time :: "real option"
  leave_end :: "real option"
  leave_time :: "real option"

record station =
  s_name :: "string option"
  s_location :: "real option"

text \<open>
  The attributes of the widget that the functions below read: the rosters, the pass times
  by balise index, the simulated time, \<^verbatim>\<open>line_config.get("max_speed")\<close>, and the value
  that \<^verbatim>\<open>datetime.datetime.now()\<close> returns.
\<close>

record widget =
  balises :: "balise list"
  trains :: "train list"
  stations :: "station list"
  balise_pass_times :: "int \<rightharpoonup> real"
  current_sim_time :: "real option"
  max_speed :: "real option"
  now :: real

text \<open>\<^verbatim>\<open>float(self.line_config.get("max_speed", 350.0))\<close>\<close>

definition default_max :: "widget \<Rightarrow> real" where
  "default_max w = (case max_speed w of None \<Rightarrow> 350 | Some v \<Rightarrow> v)"

text \<open>
  \<^verbatim>\<open>float(x)\<close>. An integer is taken as it is: one beyond \<open>2 ^ 53\<close>, which Python would
  round, is outside this model.
\<close>

fun py_float :: "builtins \<Rightarrow> pyval \<Rightarrow> error + real" where
  "py_float py (FloatV r) = Inr r"
| "py_float py (IntV i) = Inr (of_int i)"
| "py_float py (StrV s) = (case float_of_str py s of None \<Rightarrow> Inl ValueError | Some r \<Rightarrow> Inr r)"

text \<open>
  The float that \<^verbatim>\<open>x + y\<close> adds to the float \<open>y\<close>. An integer is converted, which rounds
  it, and raises \<^verbatim>\<open>OverflowError\<close> when the rounding would leave the range of the floats,
  that is from \<open>2 ^ 1024 - 2 ^ 970\<close> on; a string raises \<^verbatim>\<open>TypeError\<close>. Both are \<open>None\<close>
  here: the callers catch every exception alike.
\<close>

fun py_num :: "(real \<Rightarrow> real) \<Rightarrow> pyval \<Rightarrow> real option" where
  "py_num rnd (FloatV r) = Some r"
| "py_num rnd (IntV i) = (if \<bar>i\<bar> < 2 ^ 1024 - 2 ^ 970 then Some (rnd (of_int i)) else None)"
| "py_num rnd (StrV s) = None"

subsection \<open>SimulationWidget.check\_restrictions\<close>

text \<open>The first loop: a restriction whose end has been passed is dropped.\<close>

definition expired :: "real \<Rightarrow> restriction \<Rightarrow> bool" where
  "expired loc r = (case end_km r of None \<Rightarrow> False | Some e \<Rightarrow> loc > e)"

text \<open>The second loop: the lowest speed among the restrictions that have started.\<close>

fun lowest_limit :: "real \<Rightarrow> restriction list \<Rightarrow> real \<Rightarrow> real" where
  "lowest_limit loc [] limit = limit"
| "lowest_limit loc (r # rs) limit =
     (if loc \<ge> start_km r then
        (if speed r < limit then lowest_limit loc rs (speed r) else lowest_limit loc rs limit)
      else lowest_limit loc rs limit)"

definition check_restrictions :: "widget \<Rightarrow> train \<Rightarrow> train" where
  "check_restrictions w t =
     (let loc = (case current_location t of None \<Rightarrow> 0 | Some l \<Rightarrow> l);
          restrs = (case active_restrictions t of None \<Rightarrow> [] | Some rs \<Rightarrow> rs);
          valid_restrs = filter (\<lambda>r. \<not> expired loc r) restrs;
          base = (case base_speed t of None \<Rightarrow> default_max w | Some b \<Rightarrow> b);
          limit = lowest_limit loc valid_restrs base
      in t\<lparr>active_restrictions := Some valid_restrs, current_speed_limit := Some limit\<rparr>)"

subsection \<open>SimulationWidget.\_get\_effective\_balise\_packets\<close>

definition PACKET_TYPE_MAP_keys :: "string list" where
  "PACKET_TYPE_MAP_keys =
     [''ETCS-5'', ''CTCS-1'', ''ETCS-21'', ''ETCS-27'', ''ETCS-41'', ''ETCS-42'', ''ETCS-44'',
      ''ETCS-46'', ''ETCS-68'', ''ETCS-72'', ''ETCS-79'', ''ETCS-131'', ''ETCS-132'',
      ''ETCS-137'', ''ETCS-254'', ''CTCS-2'', ''CTCS-4'', ''CTCS-5'']"

text \<open>
  \<^verbatim>\<open>self.balises[balise_index]\<close>: an index from \<open>- len\<close> up to \<open>- 1\<close> counts from
  the end of the list, and an index outside \<open>- len \<dots> len - 1\<close> raises \<^verbatim>\<open>IndexError\<close>.
\<close>

definition py_index :: "'a list \<Rightarrow> int \<Rightarrow> error + 'a" where
  "py_index xs i =
     (if 0 \<le> i \<and> i < int (length xs) then Inr (xs ! nat i)
      else if i < 0 \<and> - int (length xs) \<le> i then Inr (xs ! nat (int (length xs) + i))
      else Inl IndexError)"

text \<open>\<^verbatim>\<open>_station_location\<close>: the location of the first station of that name.\<close>

fun station_location :: "station list \<Rightarrow> string option \<Rightarrow> real option" where
  "station_location [] name = None"
| "station_location (s # ss) name =
     (if s_name s = name then Some (case s_location s of None \<Rightarrow> 0 | Some l \<Rightarrow> l)
      else station_location ss name)"

text \<open>The local function \<^verbatim>\<open>get_loc\<close>, given the value of \<^verbatim>\<open>train.get(key)\<close>.\<close>

definition get_loc :: "widget \<Rightarrow> real option \<Rightarrow> string option \<Rightarrow> real option" where
  "get_loc w val name = (case val of Some v \<Rightarrow> Some v | None \<Rightarrow> station_location (stations w) name)"

text \<open>\<^verbatim>\<open>a in b\<close> on strings.\<close>

fun substring :: "string \<Rightarrow> string \<Rightarrow> bool" where
  "substring a [] = (a = [])"
| "substring a (c # cs) = (take (length a) (c # cs) = a \<or> substring a cs)"

text \<open>
  \<^verbatim>\<open>station and station in b_name and "CZ" in b_name\<close>: the test \<^verbatim>\<open>in\<close> raises
  \<^verbatim>\<open>TypeError\<close> when \<^verbatim>\<open>b_name\<close> is not a string; it is not reached when the station
  name is \<^verbatim>\<open>None\<close> or empty.
\<close>

definition exit_balise_of :: "string option \<Rightarrow> pyval \<Rightarrow> error + bool" where
  "exit_balise_of st b_name =
     (case st of
        None \<Rightarrow> Inr False
      | Some s \<Rightarrow>
          if s = [] then Inr False
          else
            (case b_name of
               StrV n \<Rightarrow> Inr (substring s n \<and> substring ''CZ'' n)
             | IntV i \<Rightarrow> Inl TypeError
             | FloatV r \<Rightarrow> Inl TypeError))"

text \<open>\<^verbatim>\<open>a or b\<close> on two times that may be \<^verbatim>\<open>None\<close>.\<close>

definition or_else :: "real option \<Rightarrow> real option \<Rightarrow> real option" where
  "or_else a b = (case a of Some x \<Rightarrow> Some x | None \<Rightarrow> b)"

text \<open>
  The first half of the loop body for one train: the values of \<^verbatim>\<open>relevant\<close>,
  \<^verbatim>\<open>should_stop\<close> and \<^verbatim>\<open>target_leave_time\<close>.
\<close>

definition train_relevance ::
  "builtins \<Rightarrow> widget \<Rightarrow> balise \<Rightarrow> train \<Rightarrow> error + (bool \<times> bool \<times> real option)" where
  "train_relevance py w balise t =
     (let is_scheduled = schedule_managed t;
          t_start = get_loc w (start_loc t) (start_station t);
          t_end = get_loc w (end_loc t) (end_station t);
          b_name = dict_get balise ''name'' (StrV '''')
      in case py_float py (dict_get balise ''location'' (FloatV 0)) of
           Inl e \<Rightarrow> Inl e
         | Inr b_loc \<Rightarrow>
             (case exit_balise_of (start_station t) b_name of
                Inl e \<Rightarrow> Inl e
              | Inr True \<Rightarrow>
                  Inr (True, False,
                       if is_scheduled then or_else (dep_start t) (dep_time t) else None)
              | Inr False \<Rightarrow>
                  (case exit_balise_of (end_station t) b_name of
                     Inl e \<Rightarrow> Inl e
                   | Inr True \<Rightarrow>
                       if is_scheduled then Inr (True, False, or_else (leave_end t) (leave_time t))
                       else Inr (True, True, None)
                   | Inr False \<Rightarrow>
                       (case (t_start, t_end) of
                          (Some a, Some b) \<Rightarrow>
                            if min a b < b_loc \<and> b_loc < max a b then
                              Inr (True, False,
                                   if is_scheduled then or_else (dep_start t) (dep_time t)
                                   else None)
                            else Inr (False, False, None)
                        | _ \<Rightarrow> Inr (False, False, None)))))"

text \<open>
  The second half, \<^verbatim>\<open>if relevant: ...\<close>: whether this train sets \<^verbatim>\<open>is_green\<close>.
\<close>

definition recently_passed :: "widget \<Rightarrow> int \<Rightarrow> real \<Rightarrow> bool" where
  "recently_passed w balise_index current_dt =
     (case balise_pass_times w balise_index of
        None \<Rightarrow> True
      | Some last_pass \<Rightarrow> current_dt - last_pass < 3)"

definition train_authorizes ::
  "builtins \<Rightarrow> widget \<Rightarrow> balise \<Rightarrow> int \<Rightarrow> real \<Rightarrow> train \<Rightarrow> error + bool" where
  "train_authorizes py w balise balise_index current_dt t =
     (case train_relevance py w balise t of
        Inl e \<Rightarrow> Inl e
      | Inr (relevant, should_stop, target_leave_time) \<Rightarrow>
          if \<not> relevant then Inr False
          else if should_stop then Inr False
          else if schedule_managed t \<and> target_leave_time \<noteq> None then
            (let target = the target_leave_time in
             if current_dt \<ge> target then
               (case balise_pass_times w balise_index of
                  None \<Rightarrow> Inr True
                | Some last_pass \<Rightarrow>
                    if last_pass < target then Inr True
                    else Inr (current_dt - last_pass < 3))
             else Inr False)
          else if \<not> schedule_managed t then Inr (recently_passed w balise_index current_dt)
          else Inr False)"

text \<open>\<^verbatim>\<open>for train in self.trains\<close> with its \<^verbatim>\<open>break\<close>: the final value of \<^verbatim>\<open>is_green\<close>.\<close>

fun scan_trains ::
  "builtins \<Rightarrow> widget \<Rightarrow> balise \<Rightarrow> int \<Rightarrow> real \<Rightarrow> train list \<Rightarrow> error + bool" where
  "scan_trains py w balise balise_index current_dt [] = Inr False"
| "scan_trains py w balise balise_index current_dt (t # ts) =
     (case train_authorizes py w balise balise_index current_dt t of
        Inl e \<Rightarrow> Inl e
      | Inr True \<Rightarrow> Inr True
      | Inr False \<Rightarrow> scan_trains py w balise balise_index current_dt ts)"

text \<open>The two contents: green drops \<^verbatim>\<open>CTCS-5\<close> and every blank value, red the other packets.\<close>

definition green_packets :: "builtins \<Rightarrow> balise \<Rightarrow> balise" where
  "green_packets py all_packets =
     (\<lambda>k. if k = ''CTCS-5'' then None
          else
            (case all_packets k of
               None \<Rightarrow> None
             | Some v \<Rightarrow> if strip (py_str py v) \<noteq> [] then Some v else None))"

definition red_packets :: "balise \<Rightarrow> balise" where
  "red_packets all_packets =
     (\<lambda>k. if k \<in> set PACKET_TYPE_MAP_keys \<and> k \<noteq> ''CTCS-5'' then None else all_packets k)"

definition get_effective_balise_packets ::
  "builtins \<Rightarrow> widget \<Rightarrow> int \<Rightarrow> real option \<Rightarrow> error + balise" where
  "get_effective_balise_packets py w balise_index current_time =
     (case py_index (balises w) balise_index of
        Inl e \<Rightarrow> Inl e
      | Inr balise \<Rightarrow>
          if (case balise ''CTCS-5'' of None \<Rightarrow> True | Some v \<Rightarrow> strip (py_str py v) = [])
          then Inr balise
          else
            (let current_dt = (case current_time of Some c \<Rightarrow> c | None \<Rightarrow> now w) in
             case scan_trains py w balise balise_index current_dt (trains w) of
               Inl e \<Rightarrow> Inl e
             | Inr is_green \<Rightarrow>
                 Inr (if is_green then green_packets py balise else red_packets balise)))"

subsection \<open>SimulationWidget.handle\_balise\_pass\<close>

text \<open>
  \<^verbatim>\<open>PacketUtils.get_q_scale_factor\<close> on the integer that \<^verbatim>\<open>decode_packet\<close> returns; its
  results are the literals \<^verbatim>\<open>0.1\<close>, \<^verbatim>\<open>1.0\<close> and \<^verbatim>\<open>10.0\<close>.
\<close>

definition get_q_scale_factor :: "(real \<Rightarrow> real) \<Rightarrow> int \<Rightarrow> real" where
  "get_q_scale_factor rnd code =
     (if code = 0 then rnd (1 / 10) else if code = 1 then 1 else if code = 2 then 10 else 1)"

text \<open>
  The integer fields of what \<^verbatim>\<open>decode_packet\<close> returned; the dictionary of an unknown
  packet holds the one key \<^verbatim>\<open>raw\<close> and none of them.
\<close>

definition decoded_fields :: "decoded \<Rightarrow> fields" where
  "decoded_fields r = (case r of Raw s \<Rightarrow> Map.empty | Decoded d \<Rightarrow> d)"

text \<open>
  The state that the body threads: the train and the list \<^verbatim>\<open>log_packets\<close>. Each of the
  three blocks below leaves the train as it is wherever the Python leaves its \<^verbatim>\<open>try\<close>
  block through \<^verbatim>\<open>except Exception: pass\<close>.
\<close>

definition pass_ctcs5 :: "balise \<Rightarrow> train \<times> string list \<Rightarrow> train \<times> string list" where
  "pass_ctcs5 effective_balise st =
     (case st of (t, log_packets) \<Rightarrow>
        if effective_balise ''CTCS-5'' \<noteq> None then
          (t\<lparr>current_speed_limit := Some 0, base_speed := Some 0, active_restrictions := Some []\<rparr>,
           log_packets @ [''CTCS-5 (Absolute Stop)''])
        else (t, log_packets))"

definition pass_ctcs2 ::
  "(real \<Rightarrow> real) \<Rightarrow> pyval \<Rightarrow> balise \<Rightarrow> train \<times> string list \<Rightarrow> train \<times> string list"
  where
  "pass_ctcs2 rnd b_loc effective_balise st =
     (case st of (t, log_packets) \<Rightarrow>
        (case effective_balise ''CTCS-2'' of
           Some (StrV val) \<Rightarrow>
             if length val > 8 then
               (case decode_packet ''CTCS-2'' val of
                  Inl e \<Rightarrow> (t, log_packets)
                | Inr r \<Rightarrow>
                    (let data = decoded_fields r;
                         log_packets = log_packets @ [''CTCS-2''];
                         q_scale = dict_get data ''Q_SCALE'' 1;
                         scale = get_q_scale_factor rnd q_scale;
                         v_tsr = dict_get data ''V_TSR'' 0 * 5;
                         d_tsr = dict_get data ''D_TSR'' 0;
                         l_tsr = dict_get data ''L_TSR'' 0
                     in case py_num rnd b_loc of
                          None \<Rightarrow> (t, log_packets)
                        | Some b \<Rightarrow>
                            (let start = rnd (b + rnd (rnd (of_int d_tsr * scale) / 1000));
                                 end = rnd (start + rnd (rnd (of_int l_tsr * scale) / 1000));
                                 restr = \<lparr>r_type = ''CTCS-2'', start_km = start,
                                          end_km = Some end, speed = of_int v_tsr\<rparr>
                             in case active_restrictions t of
                                  None \<Rightarrow> (t, log_packets)
                                | Some rs \<Rightarrow>
                                    (t\<lparr>active_restrictions := Some (rs @ [restr])\<rparr>,
                                     log_packets))))
             else (t, log_packets)
         | _ \<Rightarrow> (t, log_packets)))"

definition pass_etcs27 ::
  "(real \<Rightarrow> real) \<Rightarrow> widget \<Rightarrow> pyval \<Rightarrow> balise \<Rightarrow> train \<times> string list
     \<Rightarrow> train \<times> string list" where
  "pass_etcs27 rnd w b_loc effective_balise st =
     (case st of (t, log_packets) \<Rightarrow>
        (case effective_balise ''ETCS-27'' of
           Some (StrV val) \<Rightarrow>
             if length val > 8 then
               (case decode_packet ''ETCS-27'' val of
                  Inl e \<Rightarrow> (t, log_packets)
                | Inr r \<Rightarrow>
                    (let data = decoded_fields r;
                         log_packets = log_packets @ [''ETCS-27''];
                         v_static_code = dict_get data ''V_STATIC'' 127;
                         q_scale = dict_get data ''Q_SCALE'' 1;
                         scale = get_q_scale_factor rnd q_scale;
                         d_static = dict_get data ''D_STATIC'' 0
                     in case py_num rnd b_loc of
                          None \<Rightarrow> (t, log_packets)
                        | Some b \<Rightarrow>
                            (let start = rnd (b + rnd (rnd (of_int d_static * scale) / 1000)) in
                             if v_static_code = 127 then
                               (t\<lparr>base_speed := Some (default_max w)\<rparr>, log_packets)
                             else
                               (let speed_val = of_int (v_static_code * 5) in
                                if d_static = 0 then
                                  (t\<lparr>base_speed := Some speed_val\<rparr>, log_packets)
                                else (t\<lparr>base_speed := Some speed_val\<rparr>, log_packets)))))
             else (t, log_packets)
         | _ \<Rightarrow> (t, log_packets)))"

text \<open>
  The end of the body. With a logged packet the logger is called, which does not touch the
  train; otherwise the manual \<^verbatim>\<open>speed_limit\<close> of an old configuration sets the base
  speed.
\<close>

definition pass_fallback ::
  "builtins \<Rightarrow> balise \<Rightarrow> train \<times> string list \<Rightarrow> train" where
  "pass_fallback py effective_balise st =
     (case st of (t, log_packets) \<Rightarrow>
        if log_packets \<noteq> [] then t
        else
          (case effective_balise ''speed_limit'' of
             None \<Rightarrow> t
           | Some v \<Rightarrow>
               if strip (py_str py v) \<noteq> [] then
                 (case py_float py v of Inl e \<Rightarrow> t | Inr limit \<Rightarrow> t\<lparr>base_speed := Some limit\<rparr>)
               else t))"

text \<open>The body of \<^verbatim>\<open>handle_balise_pass\<close> once \<^verbatim>\<open>effective_balise\<close> is known.\<close>

definition handle_packets ::
  "builtins \<Rightarrow> (real \<Rightarrow> real) \<Rightarrow> widget \<Rightarrow> train \<Rightarrow> pyval \<Rightarrow> balise \<Rightarrow> train" where
  "handle_packets py rnd w t b_loc effective_balise =
     pass_fallback py effective_balise
       (pass_etcs27 rnd w b_loc effective_balise
         (pass_ctcs2 rnd b_loc effective_balise
           (pass_ctcs5 effective_balise (t, []))))"

definition effective_balise_of ::
  "builtins \<Rightarrow> widget \<Rightarrow> balise \<Rightarrow> int \<Rightarrow> error + balise" where
  "effective_balise_of py w balise index =
     (if index \<ge> 0 then get_effective_balise_packets py w index (current_sim_time w)
      else Inr balise)"

definition handle_balise_pass ::
  "builtins \<Rightarrow> (real \<Rightarrow> real) \<Rightarrow> widget \<Rightarrow> train \<Rightarrow> balise \<Rightarrow> int \<Rightarrow> error + train"
  where
  "handle_balise_pass py rnd w t balise index =
     (let b_loc = dict_get balise ''location'' (FloatV 0) in
      case effective_balise_of py w balise index of
        Inl e \<Rightarrow> Inl e
      | Inr effective_balise \<Rightarrow> Inr (handle_packets py rnd w t b_loc effective_balise))"

subsection \<open>Notions used to state the properties of a balise pass\<close>

text \<open>A train that has just been loaded, and a widget with empty rosters.\<close>

definition fresh_train :: train where
  "fresh_train =
     \<lparr>current_location = None, base_speed = None, current_speed_limit = None,
      active_restrictions = Some [], schedule_managed = False, start_station = None,
      end_station = None, start_loc = None, end_loc = None, dep_start = None, dep_time = None,
      leave_end = None, leave_time = None\<rparr>"

definition empty_widget :: widget where
  "empty_widget =
     \<lparr>balises = [], trains = [], stations = [], balise_pass_times = Map.empty,
      current_sim_time = None, max_speed = None, now = 0\<rparr>"

text \<open>
  The restriction of the example: from the balise at \<open>b\<close> to the float that \<^verbatim>\<open>b + 0.1\<close>
  evaluates to, at 100 km/h.
\<close>

definition tsr_100 :: "(real \<Rightarrow> real) \<Rightarrow> real \<Rightarrow> restriction" where
  "tsr_100 rnd b =
     \<lparr>r_type = ''CTCS-2'', start_km = b, end_km = Some (rnd (b + rnd (1 / 10))), speed = 100\<rparr>"

text \<open>\<^verbatim>\<open>train.get("base_speed", default_max)\<close>\<close>

definition base_of :: "widget \<Rightarrow> train \<Rightarrow> real" where
  "base_of w t = (case base_speed t of None \<Rightarrow> default_max w | Some x \<Rightarrow> x)"

text \<open>
  Rounding to the nearest float, on the reals that the example of the CTCS-2 window rounds:
  \<open>1 / 10\<close> rounds to the float \<^verbatim>\<open>0.1\<close>, which is \<open>3602879701896397 / 2 ^ 55\<close>, and the sum
  of the float \<^verbatim>\<open>0.7\<close>, which is \<open>3152519739159347 / 2 ^ 52\<close>, and the float \<^verbatim>\<open>0.1\<close> rounds to
  \<open>7205759403792793 / 2 ^ 53\<close>, which Python prints as \<^verbatim>\<open>0.7999999999999999\<close>. The other
  reals that the example rounds are floats (0, 100 and the float \<^verbatim>\<open>0.7\<close>) and round to
  themselves.
\<close>

definition rnd_example :: "real \<Rightarrow> real" where
  "rnd_example x =
     (if x = 1 / 10 then 3602879701896397 / 36028797018963968
      else if x = 3152519739159347 / 4503599627370496 + 3602879701896397 / 36028797018963968
      then 7205759403792793 / 9007199254740992
      else x)"

section \<open>Properties of the bit-field codec\<close>


lemma bits_value_snoc:
  "bits_value (s @ [c]) = 2 * bits_value s + (if c = CHR ''1'' then 1 else 0)"
  by (simp add: bits_value_def)

lemma bits_value_Nil: "bits_value [] = 0"
  by (simp add: bits_value_def)

lemma bits_value_append:
  "bits_value (a @ b) = bits_value a * 2 ^ length b + bits_value b"
proof (induction b rule: rev_induct)
  case Nil
  show ?case by (simp add: bits_value_Nil)
next
  case (snoc c b)
  have "bits_value (a @ b @ [c]) = 2 * bits_value (a @ b) + (if c = CHR ''1'' then 1 else 0)"
    using bits_value_snoc [of "a @ b" c] by simp
  with snoc show ?case by (simp add: bits_value_snoc algebra_simps)
qed

lemma bits_value_bounds: "0 \<le> bits_value s \<and> bits_value s < 2 ^ length s"
  by (induction s rule: rev_induct) (auto simp: bits_value_Nil bits_value_snoc)

lemma bitstring_append: "bitstring (a @ b) \<longleftrightarrow> bitstring a \<and> bitstring b"
  by (simp add: bitstring_def)

lemma bitstring_replicate0: "bitstring (replicate k CHR ''0'')"
  by (simp add: bitstring_def is_bit_def list_all_iff)

lemma bits_value_replicate0: "bits_value (replicate k CHR ''0'') = 0"
  by (induction k) (simp_all add: bits_value_def)

lemma bitstring_bin_digits: "bitstring (bin_digits n)"
proof (induction n rule: bin_digits.induct)
  case (1 n)
  show ?case
    by (subst bin_digits.simps) (use 1 in \<open>auto simp: bitstring_def is_bit_def\<close>)
qed

lemma bits_value_bin_digits: "bits_value (bin_digits n) = int n"
proof (induction n rule: bin_digits.induct)
  case (1 n)
  show ?case
  proof (cases "n < 2")
    case True
    then have "n = 0 \<or> n = 1" by auto
    then show ?thesis
      by (subst bin_digits.simps) (auto simp: bits_value_def)
  next
    case False
    with 1 have ih: "bits_value (bin_digits (n div 2)) = int (n div 2)" by simp
    have "bits_value (bin_digits n) = 2 * int (n div 2) + (if n mod 2 = 0 then 0 else 1)"
      by (subst bin_digits.simps) (simp add: False bits_value_snoc ih)
    also have "\<dots> = int n" by (simp split: if_splits) presburger
    finally show ?thesis .
  qed
qed

lemma bitstring_drop: "bitstring s \<Longrightarrow> bitstring (drop k s)"
  by (auto simp: bitstring_def list_all_iff dest: in_set_dropD)

lemma bitstring_take: "bitstring s \<Longrightarrow> bitstring (take k s)"
  by (auto simp: bitstring_def list_all_iff dest: in_set_takeD)

lemma bits_value_drop: "bits_value (drop k s) = bits_value s mod 2 ^ (length s - k)"
proof -
  have "bits_value s = bits_value (take k s) * 2 ^ length (drop k s) + bits_value (drop k s)"
    using bits_value_append [of "take k s" "drop k s"] by simp
  moreover have "0 \<le> bits_value (drop k s)" "bits_value (drop k s) < 2 ^ length (drop k s)"
    using bits_value_bounds [of "drop k s"] by auto
  ultimately show ?thesis by (simp add: mod_pos_pos_trivial)
qed

lemma bits_inj:
  "length s = length t \<Longrightarrow> bitstring s \<Longrightarrow> bitstring t \<Longrightarrow> bits_value s = bits_value t \<Longrightarrow> s = t"
proof (induction s arbitrary: t rule: rev_induct)
  case Nil
  then show ?case by simp
next
  case (snoc c s)
  then obtain d t' where t: "t = t' @ [d]"
    by (metis length_0_conv rev_exhaust snoc_eq_iff_butlast length_append_singleton nat.simps(3))
  from snoc.prems t have len: "length s = length t'" by simp
  from snoc.prems t have bs: "bitstring s" "bitstring t'" "is_bit c" "is_bit d"
    by (simp_all add: bitstring_def)
  define x :: int where "x = (if c = CHR ''1'' then 1 else 0)"
  define y :: int where "y = (if d = CHR ''1'' then 1 else 0)"
  from snoc.prems(4) t have "2 * bits_value s + x = 2 * bits_value t' + y"
    by (simp add: bits_value_snoc x_def y_def)
  moreover have "0 \<le> x" "x \<le> 1" "0 \<le> y" "y \<le> 1"
    by (simp_all add: x_def y_def)
  ultimately have "bits_value s = bits_value t'" and "x = y" by arith+
  moreover from \<open>x = y\<close> bs(3,4) have "c = d"
    by (auto simp: x_def y_def is_bit_def split: if_splits)
  ultimately have "bits_value s = bits_value t' \<and> c = d" by simp
  with snoc.IH [OF len bs(1,2)] t show ?case by simp
qed

lemma format_0b_nonneg:
  "0 \<le> v \<Longrightarrow> format_0b v b = replicate (b - length (bin_digits (nat v))) CHR ''0'' @ bin_digits (nat v)"
  by (simp add: format_0b_def Let_def)

lemma length_format_0b: "b \<le> length (format_0b v b)"
  by (auto simp: format_0b_def Let_def)

lemma length_int_to_bin: "0 < b \<Longrightarrow> length (int_to_bin v b) = b"
  using length_format_0b [of b v] by (simp add: int_to_bin_def last_chars_def)

lemma bitstring_int_to_bin: "0 \<le> v \<Longrightarrow> bitstring (int_to_bin v b)"
  by (simp add: int_to_bin_def last_chars_def format_0b_nonneg bitstring_drop
      bitstring_append bitstring_replicate0 bitstring_bin_digits)

lemma bits_value_format_0b: "0 \<le> v \<Longrightarrow> bits_value (format_0b v b) = v"
  by (simp add: format_0b_nonneg bits_value_append bits_value_replicate0 bits_value_bin_digits)

lemma bits_value_int_to_bin:
  assumes "0 \<le> v" "0 < b"
  shows "bits_value (int_to_bin v b) = v mod 2 ^ b"
proof -
  let ?s = "format_0b v b"
  have "b \<le> length ?s" by (rule length_format_0b)
  then have "length ?s - (length ?s - b) = b" by simp
  then show ?thesis
    using assms by (simp add: int_to_bin_def last_chars_def bits_value_drop bits_value_format_0b)
qed

lemma bin_to_int_int_to_bin:
  assumes "0 \<le> v" "0 < b"
  shows "bin_to_int (int_to_bin v b) = Inr (v mod 2 ^ b)"
proof -
  have "int_to_bin v b \<noteq> []" using length_int_to_bin [OF assms(2), of v] assms(2) by auto
  then show ?thesis
    using assms by (simp add: bin_to_int_def bitstring_int_to_bin bits_value_int_to_bin)
qed

text \<open>
  Where the code meets its contract. For every positive bit count \<open>b\<close>, \<open>int_to_bin v b\<close>
  has exactly \<open>b\<close> characters; for every non-negative \<open>v\<close> these are binary digits whose
  base-2 reading, most significant bit first, is \<open>v mod 2 ^ b\<close>, and \<open>v\<close> and \<open>v + 2 ^ b\<close>
  encode to the same string.
\<close>

lemma int_to_bin_nonneg_modulo:
  "0 < b \<Longrightarrow>
     length (int_to_bin v b) = b \<and>
     (0 \<le> v \<longrightarrow>
        bitstring (int_to_bin v b) \<and>
        bin_to_int (int_to_bin v b) = Inr (v mod 2 ^ b) \<and>
        int_to_bin (v + 2 ^ b) b = int_to_bin v b)"
proof -
  assume b: "0 < b"
  have same: "int_to_bin (v + 2 ^ b) b = int_to_bin v b" if v: "0 \<le> v"
  proof (rule bits_inj)
    from v have nn: "0 \<le> v + 2 ^ b" by simp
    show "length (int_to_bin (v + 2 ^ b) b) = length (int_to_bin v b)"
      by (simp add: length_int_to_bin b)
    show "bitstring (int_to_bin (v + 2 ^ b) b)" by (rule bitstring_int_to_bin [OF nn])
    show "bitstring (int_to_bin v b)" by (rule bitstring_int_to_bin [OF v])
    show "bits_value (int_to_bin (v + 2 ^ b) b) = bits_value (int_to_bin v b)"
      by (simp add: bits_value_int_to_bin [OF nn b] bits_value_int_to_bin [OF v b])
  qed
  show ?thesis
    using b same by (simp add: length_int_to_bin bitstring_int_to_bin bin_to_int_int_to_bin)
qed

text \<open>
  C2. On a negative value the code does not return the binary representation of the value
  modulo \<open>2 ^ b\<close>: the format keeps the minus sign, and \<open>int_to_bin (- 1) 3\<close> is \<^verbatim>\<open>-01\<close>,
  three characters that are not all binary digits, where \<open>- 1 mod 2 ^ 3\<close> and
  \<open>- 1 + 2 ^ 3\<close>, both 7, encode to \<^verbatim>\<open>111\<close>. \<^verbatim>\<open>encode_packet\<close> passes the values of its
  dictionary to \<open>int_to_bin\<close> as they are, so that the minus sign reaches the telegram:
  CTCS-5 with Q\_DIR \<open>- 1\<close> is encoded as \<^verbatim>\<open>000000101-10\<close>.
\<close>

theorem int_to_bin_negative_keeps_sign:
  "int_to_bin (- 1) 3 = ''-01'' \<and> \<not> bitstring (int_to_bin (- 1) 3) \<and>
   int_to_bin (- 1 mod 2 ^ 3) 3 = ''111'' \<and> int_to_bin (- 1 + 2 ^ 3) 3 = ''111'' \<and>
   encode_packet ''CTCS-5'' [''Q_DIR'' \<mapsto> - 1] = ''000000101-10''"
  by code_simp


lemmas packet_tables =
  ETCS_5_def CTCS_1_def ETCS_21_def ETCS_27_def ETCS_41_def CTCS_2_def CTCS_4_def
  CTCS_5_def ETCS_68_def ETCS_79_def

lemmas field_makers = plain_def fixed_def guarded_def

lemma known_packet_cases:
  assumes "PACKET_DEFS P = Some defs"
  shows "defs \<in> {ETCS_5, CTCS_1, ETCS_21, ETCS_27, ETCS_41, CTCS_2, CTCS_4, CTCS_5,
                 ETCS_68, ETCS_79}"
  using assms by (auto simp: PACKET_DEFS_def split: if_splits)

lemma known_packet_names_distinct:
  assumes "PACKET_DEFS P = Some defs"
  shows "distinct (map fname defs)"
  using known_packet_cases [OF assms] by (auto simp: packet_tables field_makers)

lemma known_packet_nonempty:
  assumes "PACKET_DEFS P = Some defs"
  shows "defs \<noteq> []"
  using known_packet_cases [OF assms] by (auto simp: packet_tables)

lemma bin_to_int_bitstring:
  "bitstring s \<Longrightarrow> bin_to_int s = Inr (bits_value s)"
  by (simp add: bin_to_int_def bits_value_def)

lemma bin_to_int_bounds:
  "bin_to_int s = Inr v \<Longrightarrow> 0 \<le> v \<and> v < 2 ^ length s"
  using bits_value_bounds [of s] by (auto simp: bin_to_int_def split: if_splits)

lemma decode_field_total:
  "bitstring s \<Longrightarrow> \<exists>st'. decode_field f s st = Inr st'"
  by (simp add: decode_field_def bin_to_int_bitstring bitstring_take bitstring_drop)

lemma decode_fields_total:
  "bitstring s \<Longrightarrow> \<exists>st'. decode_fields fs s st = Inr st'"
proof (induction fs arbitrary: st)
  case Nil
  show ?case by simp
next
  case (Cons f fs)
  from decode_field_total [OF Cons.prems] obtain st1 where "decode_field f s st = Inr st1"
    by blast
  with Cons.IH [OF Cons.prems, of st1] show ?case by simp
qed

lemma decode_fields_stopped: "stopped st \<Longrightarrow> decode_fields fs s st = Inr st"
  by (cases fs) simp_all

lemma decode_fields_append:
  "decode_fields (pre @ post) s st =
     (case decode_fields pre s st of Inl e \<Rightarrow> Inl e | Inr st' \<Rightarrow> decode_fields post s st')"
  by (induction pre arbitrary: st) (auto simp: decode_fields_stopped split: sum.splits)

lemma decode_fields_short:
  assumes "\<not> stopped st" "present f (result st)" "length s < ptr st + flen f"
  shows "decode_fields (f # post) s st = Inr (st\<lparr>stopped := True\<rparr>)"
  using assms by (simp add: decode_field_def decode_fields_stopped)

lemma decode_field_within:
  assumes "decode_field f s st = Inr st'" "f \<in> set F" "fields_within F (result st)"
  shows "fields_within F (result st')"
proof (cases "present f (result st) \<and> ptr st + flen f \<le> length s")
  case False
  with assms show ?thesis by (auto simp: decode_field_def split: if_splits)
next
  case True
  let ?chunk = "take (flen f) (drop (ptr st) s)"
  from True assms(1) obtain v where v: "bin_to_int ?chunk = Inr v"
    and st': "st' = st\<lparr>result := (result st)(fname f \<mapsto> v), ptr := ptr st + flen f\<rparr>"
    by (auto simp: decode_field_def split: sum.splits)
  from True have "flen f \<le> length s - ptr st" by arith
  then have "length ?chunk = flen f" by simp
  with bin_to_int_bounds [OF v] have "0 \<le> v" "v < 2 ^ flen f" by simp_all
  with assms(2,3) show ?thesis unfolding fields_within_def st' by auto
qed

lemma decode_fields_within:
  "decode_fields fs s st = Inr st' \<Longrightarrow> set fs \<subseteq> set F \<Longrightarrow> fields_within F (result st)
     \<Longrightarrow> fields_within F (result st')"
proof (induction fs arbitrary: st)
  case Nil
  then show ?case by simp
next
  case (Cons f fs)
  show ?case
  proof (cases "stopped st")
    case True
    with Cons.prems show ?thesis by simp
  next
    case False
    with Cons.prems(1) obtain st1 where 1: "decode_field f s st = Inr st1"
      and 2: "decode_fields fs s st1 = Inr st'"
      by (auto split: sum.splits)
    from Cons.prems(2) have "f \<in> set F" "set fs \<subseteq> set F" by simp_all
    with decode_field_within [OF 1 _ Cons.prems(3)] Cons.IH [OF 2] show ?thesis by blast
  qed
qed

lemma decode_packet_known:
  assumes "PACKET_DEFS P = Some defs"
  shows "decode_packet P s =
     (case decode_fields defs s dstate0 of Inl e \<Rightarrow> Inl e | Inr st \<Rightarrow> Inr (Decoded (result st)))"
  using assms known_packet_nonempty [OF assms] by (simp add: decode_packet_def)

text \<open>
  C10. For every known packet name and every string of binary digits, \<open>decode_packet\<close>
  returns a dictionary, and each of its values \<open>v\<close> under a name \<open>n\<close> satisfies
  \<open>0 \<le> v < 2 ^ L\<close>, where \<open>L\<close> is the bit-length of the one field of the packet
  definition that is called \<open>n\<close>.
\<close>

theorem decode_packet_value_bounds:
  "bitstring s \<Longrightarrow> PACKET_DEFS P = Some defs \<Longrightarrow>
     (\<exists>d. decode_packet P s = Inr (Decoded d)) \<and>
     (\<forall>d n v. decode_packet P s = Inr (Decoded d) \<longrightarrow> d n = Some v \<longrightarrow>
        (\<exists>f\<in>set defs. fname f = n \<and> 0 \<le> v \<and> v < 2 ^ flen f \<and>
           (\<forall>g\<in>set defs. fname g = n \<longrightarrow> g = f)))"
proof -
  assume s: "bitstring s" and P: "PACKET_DEFS P = Some defs"
  from decode_fields_total [OF s] obtain st where st: "decode_fields defs s dstate0 = Inr st"
    by blast
  have dec: "decode_packet P s = Inr (Decoded (result st))"
    by (simp add: decode_packet_known [OF P] st)
  have "fields_within defs (result dstate0)" by (simp add: fields_within_def dstate0_def)
  from decode_fields_within [OF st _ this] have w: "fields_within defs (result st)" by simp
  have uniq: "g = f" if "f \<in> set defs" "g \<in> set defs" "fname g = fname f" for f g
    using known_packet_names_distinct [OF P] that by (meson distinct_map inj_onD)
  have "\<exists>f\<in>set defs. fname f = n \<and> 0 \<le> v \<and> v < 2 ^ flen f \<and>
           (\<forall>g\<in>set defs. fname g = n \<longrightarrow> g = f)" if "result st n = Some v" for n v
  proof -
    from w that obtain f where "f \<in> set defs" "fname f = n" "0 \<le> v" "v < 2 ^ flen f"
      unfolding fields_within_def by blast
    with uniq show ?thesis by blast
  qed
  with dec show ?thesis by auto
qed

theorem decode_packet_value_bounds_witness:
  "bitstring ''000000101011'' \<and> PACKET_DEFS ''CTCS-5'' = Some CTCS_5 \<and>
   decode_packet ''CTCS-5'' ''000000101011''
     = Inr (Decoded [''NID_XUSER'' \<mapsto> 5, ''Q_DIR'' \<mapsto> 1, ''Q_STOP'' \<mapsto> 1]) \<and>
   (\<exists>f. f \<in> set CTCS_5 \<and> fname f = ''NID_XUSER'' \<and> (0::int) \<le> 5 \<and> (5::int) < 2 ^ flen f)"
proof -
  let ?s = "''000000101011''"
  let ?d = "[''NID_XUSER'' \<mapsto> 5, ''Q_DIR'' \<mapsto> 1, ''Q_STOP'' \<mapsto> (1::int)]"
  have s: "bitstring ?s" by (simp add: bitstring_def is_bit_def)
  have P: "PACKET_DEFS ''CTCS-5'' = Some CTCS_5" by (simp add: PACKET_DEFS_def)
  have d: "decode_packet ''CTCS-5'' ?s = Inr (Decoded ?d)"
    by (simp add: decode_packet_def PACKET_DEFS_def CTCS_5_def field_makers dstate0_def
        decode_field_def present_def bin_to_int_def bitstring_def is_bit_def bits_value_def)
  have "?d ''NID_XUSER'' = Some 5" by simp
  with decode_packet_value_bounds [OF s P] d
  have "\<exists>f\<in>set CTCS_5. fname f = ''NID_XUSER'' \<and> (0::int) \<le> 5 \<and> (5::int) < 2 ^ flen f \<and>
           (\<forall>g\<in>set CTCS_5. fname g = ''NID_XUSER'' \<longrightarrow> g = f)"
    by blast
  with s P d show ?thesis by blast
qed

text \<open>
  C9. For every known packet name and every string of binary digits, \<open>decode_packet\<close>
  returns a dictionary; and whenever the loop, having decoded the fields \<open>pre\<close>, comes to
  a present field \<open>f\<close> whose bits would end past the end of the string, \<open>decode_packet\<close>
  returns exactly the fields decoded so far.
\<close>

theorem decode_packet_short_input:
  "bitstring s \<Longrightarrow> PACKET_DEFS P = Some defs \<Longrightarrow>
     (\<exists>d. decode_packet P s = Inr (Decoded d)) \<and>
     (\<forall>pre f post st.
        defs = pre @ f # post \<longrightarrow> decode_fields pre s dstate0 = Inr st \<longrightarrow>
        \<not> stopped st \<longrightarrow> present f (result st) \<longrightarrow> length s < ptr st + flen f \<longrightarrow>
        decode_packet P s = Inr (Decoded (result st)))"
proof -
  assume s: "bitstring s" and P: "PACKET_DEFS P = Some defs"
  from decode_fields_total [OF s] obtain st0 where "decode_fields defs s dstate0 = Inr st0"
    by blast
  then have "\<exists>d. decode_packet P s = Inr (Decoded d)"
    by (simp add: decode_packet_known [OF P])
  moreover have "decode_packet P s = Inr (Decoded (result st))"
    if "defs = pre @ f # post" "decode_fields pre s dstate0 = Inr st"
       "\<not> stopped st" "present f (result st)" "length s < ptr st + flen f"
    for pre f post st
  proof -
    from that(3-5) have "decode_fields (f # post) s st = Inr (st\<lparr>stopped := True\<rparr>)"
      by (rule decode_fields_short)
    with that(1,2) have "decode_fields defs s dstate0 = Inr (st\<lparr>stopped := True\<rparr>)"
      by (simp only: decode_fields_append sum.case)
    then show ?thesis by (simp add: decode_packet_known [OF P])
  qed
  ultimately show ?thesis by blast
qed

theorem decode_packet_short_input_witness:
  "bitstring ''0000001010'' \<and> PACKET_DEFS ''CTCS-5'' = Some CTCS_5 \<and>
   CTCS_5 = [fixed ''NID_XUSER'' 9 5] @ plain ''Q_DIR'' 2 # [plain ''Q_STOP'' 1] \<and>
   decode_fields [fixed ''NID_XUSER'' 9 5] ''0000001010'' dstate0
     = Inr \<lparr>result = [''NID_XUSER'' \<mapsto> 5], ptr = 9, stopped = False\<rparr> \<and>
   length ''0000001010'' < 9 + flen (plain ''Q_DIR'' 2) \<and>
   decode_packet ''CTCS-5'' ''0000001010'' = Inr (Decoded [''NID_XUSER'' \<mapsto> 5])"
proof -
  let ?s = "''0000001010''"
  let ?st = "\<lparr>result = [''NID_XUSER'' \<mapsto> (5::int)], ptr = 9, stopped = False\<rparr>"
  have s: "bitstring ?s" by (simp add: bitstring_def is_bit_def)
  have P: "PACKET_DEFS ''CTCS-5'' = Some CTCS_5" by (simp add: PACKET_DEFS_def)
  have split: "CTCS_5 = [fixed ''NID_XUSER'' 9 5] @ plain ''Q_DIR'' 2 # [plain ''Q_STOP'' 1]"
    by (simp add: CTCS_5_def)
  have pre: "decode_fields [fixed ''NID_XUSER'' 9 5] ?s dstate0 = Inr ?st"
    by (simp add: field_makers dstate0_def decode_field_def present_def bin_to_int_def
        bitstring_def is_bit_def bits_value_def)
  have f: "\<not> stopped ?st" "present (plain ''Q_DIR'' 2) (result ?st)"
    "length ?s < ptr ?st + flen (plain ''Q_DIR'' 2)"
    by (simp_all add: field_makers present_def)
  from decode_packet_short_input [OF s P] split pre f
  have "decode_packet ''CTCS-5'' ?s = Inr (Decoded (result ?st))" by blast
  with s P split pre f(3) show ?thesis by simp
qed


lemmas dec_front_Cons = dec_front.simps(2)

lemma decode_fields_front:
  "\<not> stopped st \<Longrightarrow> ptr st \<le> length s \<Longrightarrow>
     (case decode_fields fs s st of Inl e \<Rightarrow> Inl e | Inr st' \<Rightarrow> Inr (result st'))
       = dec_front fs (drop (ptr st) s) (result st)"
proof (induction fs arbitrary: st)
  case Nil
  show ?case by simp
next
  case (Cons f fs)
  show ?case
  proof (cases "present f (result st)")
    case False
    with Cons.prems have "decode_field f s st = Inr st" by (simp add: decode_field_def)
    with Cons.prems Cons.IH [of st] False show ?thesis by (simp add: dec_front_Cons)
  next
    case True
    show ?thesis
    proof (cases "ptr st + flen f \<le> length s")
      case False
      with True Cons.prems have "decode_field f s st = Inr (st\<lparr>stopped := True\<rparr>)"
        by (simp add: decode_field_def)
      moreover from False Cons.prems have "length (drop (ptr st) s) < flen f" by simp
      ultimately show ?thesis using True Cons.prems
        by (simp add: dec_front_Cons decode_fields_stopped)
    next
      case fit: True
      then have len: "\<not> length (drop (ptr st) s) < flen f" by simp
      show ?thesis
      proof (cases "bin_to_int (take (flen f) (drop (ptr st) s))")
        case (Inl e)
        with True fit len Cons.prems show ?thesis by (simp add: dec_front_Cons decode_field_def)
      next
        case (Inr v)
        let ?st = "st\<lparr>result := (result st)(fname f \<mapsto> v), ptr := ptr st + flen f\<rparr>"
        from Inr True fit have df: "decode_field f s st = Inr ?st" by (simp add: decode_field_def)
        from Cons.prems fit have "\<not> stopped ?st" "ptr ?st \<le> length s" by simp_all
        from Cons.IH [OF this] df Inr True len Cons.prems show ?thesis
          by (simp add: dec_front_Cons add.commute fun_upd_def)
      qed
    qed
  qed
qed

lemma bin_to_int_int_to_bin_small:
  "0 < k \<Longrightarrow> 0 \<le> v \<Longrightarrow> v < 2 ^ k \<Longrightarrow> bin_to_int (int_to_bin v k) = Inr v"
  by (simp add: bin_to_int_int_to_bin)

lemma fits_dict_get:
  "fits V n k \<Longrightarrow> 0 \<le> dict_get V n 0 \<and> dict_get V n 0 < 2 ^ k"
  by (auto simp: fits_def dict_get_def split: option.splits)

lemma dec_front_absent: "\<not> present f r \<Longrightarrow> dec_front (f # fs) s r = dec_front fs s r"
  by (simp add: dec_front_Cons)

lemma dec_front_end: "present f r \<Longrightarrow> 0 < flen f \<Longrightarrow> dec_front (f # fs) [] r = Inr r"
  by (simp add: dec_front_Cons)

lemma dec_front_chunk:
  assumes "present f r" "flen f = k" "0 < k" "0 \<le> v" "v < 2 ^ k"
  shows "dec_front (f # fs) (int_to_bin v k @ rest) r = dec_front fs rest (r(fname f \<mapsto> v))"
  using assms by (simp add: dec_front_Cons length_int_to_bin bin_to_int_int_to_bin_small)

lemma dec_front_fixed:
  "present (fixed n k v) r \<Longrightarrow> 0 < k \<Longrightarrow> 0 \<le> v \<Longrightarrow> v < 2 ^ k \<Longrightarrow>
     dec_front (fixed n k v # fs) (int_to_bin v k @ rest) r = dec_front fs rest (r(n \<mapsto> v))"
  using dec_front_chunk [of "fixed n k v" r k v fs rest] by (simp add: fixed_def)

lemma dec_front_plain:
  "fits V n k \<Longrightarrow> 0 < k \<Longrightarrow>
     dec_front (plain n k # fs) (int_to_bin (dict_get V n 0) k @ rest) r
       = dec_front fs rest (r(n \<mapsto> dict_get V n 0))"
  using dec_front_chunk [of "plain n k" r k "dict_get V n 0" fs rest] fits_dict_get [of V n k]
  by (simp add: plain_def present_def)

lemma dec_front_plain_val:
  "0 < k \<Longrightarrow> 0 \<le> v \<Longrightarrow> v < 2 ^ k \<Longrightarrow>
     dec_front (plain n k # fs) (int_to_bin v k @ rest) r = dec_front fs rest (r(n \<mapsto> v))"
  using dec_front_chunk [of "plain n k" r k v fs rest] by (simp add: plain_def present_def)

lemma dec_front_plain_val_last:
  "0 < k \<Longrightarrow> 0 \<le> v \<Longrightarrow> v < 2 ^ k \<Longrightarrow>
     dec_front (plain n k # fs) (int_to_bin v k) r = dec_front fs [] (r(n \<mapsto> v))"
  using dec_front_plain_val [of k v n fs "[]" r] by simp

lemma dec_front_guarded:
  "cond_holds c r \<Longrightarrow> fits V n k \<Longrightarrow> 0 < k \<Longrightarrow>
     dec_front (guarded n k c # fs) (int_to_bin (dict_get V n 0) k @ rest) r
       = dec_front fs rest (r(n \<mapsto> dict_get V n 0))"
  using dec_front_chunk [of "guarded n k c" r k "dict_get V n 0" fs rest] fits_dict_get [of V n k]
  by (simp add: guarded_def present_def)

lemma dec_front_guarded_absent:
  "\<not> cond_holds c r \<Longrightarrow> dec_front (guarded n k c # fs) s r = dec_front fs s r"
  by (simp add: dec_front_Cons guarded_def present_def)

lemma dec_front_plain_last:
  "fits V n k \<Longrightarrow> 0 < k \<Longrightarrow>
     dec_front (plain n k # fs) (int_to_bin (dict_get V n 0) k) r
       = dec_front fs [] (r(n \<mapsto> dict_get V n 0))"
  using dec_front_plain [of V n k fs "[]" r] by simp

lemma dec_front_guarded_last:
  "cond_holds c r \<Longrightarrow> fits V n k \<Longrightarrow> 0 < k \<Longrightarrow>
     dec_front (guarded n k c # fs) (int_to_bin (dict_get V n 0) k) r
       = dec_front fs [] (r(n \<mapsto> dict_get V n 0))"
  using dec_front_guarded [of c r V n k fs "[]"] by simp

lemma dec_front_guarded_end:
  "cond_holds c r \<Longrightarrow> 0 < k \<Longrightarrow> dec_front (guarded n k c # fs) [] r = Inr r"
  by (simp add: dec_front_Cons guarded_def present_def)

lemma encode_plain:
  "encode_fields (plain n k # fs) V acc = encode_fields fs V (acc @ int_to_bin (dict_get V n 0) k)"
  by (simp add: plain_def present_def)

lemma encode_fixed:
  "encode_fields (fixed n k v # fs) V acc = encode_fields fs V (acc @ int_to_bin v k)"
  by (simp add: fixed_def present_def)

lemma encode_guarded:
  "encode_fields (guarded n k c # fs) V acc =
     (if cond_holds c V then encode_fields fs V (acc @ int_to_bin (dict_get V n 0) k)
      else encode_fields fs V acc)"
  by (simp add: guarded_def present_def)

lemma fval_simps: "fval (plain n k) = None" "fval (fixed n k v) = Some v" "fval (guarded n k c) = None"
  by (simp_all add: plain_def fixed_def guarded_def)

lemma fname_simps: "fname (plain n k) = n" "fname (fixed n k v) = n" "fname (guarded n k c) = n"
  by (simp_all add: plain_def fixed_def guarded_def)

lemma flen_simps: "flen (plain n k) = k" "flen (fixed n k v) = k" "flen (guarded n k c) = k"
  by (simp_all add: plain_def fixed_def guarded_def)

lemma present_simps: "present (plain n k) d" "present (fixed n k v) d"
  "present (guarded n k c) d = cond_holds c d"
  by (simp_all add: plain_def fixed_def guarded_def present_def)

lemma dict_get_Some: "V n = Some v \<Longrightarrow> dict_get V n d = v"
  by (simp add: dict_get_def)

lemma Some_dict_get: "V n = Some v \<Longrightarrow> Some (dict_get V n d) = Some v"
  by (simp add: dict_get_def)

lemmas codec_steps =
  encode_plain encode_fixed encode_guarded encode_fields.simps(1)
  dec_front_fixed dec_front_plain dec_front_plain_val dec_front_plain_val_last dec_front_guarded dec_front_guarded_absent
  dec_front_plain_last dec_front_guarded_last dec_front_guarded_end dec_front.simps(1)
  fval_simps fname_simps flen_simps present_simps dict_get_Some

lemma roundtrip_CTCS_5:
  assumes "all_fit CTCS_5 V"
  shows "\<exists>d. dec_front CTCS_5 (encode_fields CTCS_5 V []) Map.empty = Inr d \<and> reproduces CTCS_5 V d"
  using assms unfolding all_fit_def reproduces_def CTCS_5_def
  by (simp add: codec_steps del: encode_fields.simps(2))

lemma roundtrip_CTCS_2:
  assumes "all_fit CTCS_2 V"
  shows "\<exists>d. dec_front CTCS_2 (encode_fields CTCS_2 V []) Map.empty = Inr d \<and> reproduces CTCS_2 V d"
  using assms unfolding all_fit_def reproduces_def CTCS_2_def
  by (simp add: codec_steps del: encode_fields.simps(2))

lemma roundtrip_ETCS_5:
  assumes "all_fit ETCS_5 V"
  shows "\<exists>d. dec_front ETCS_5 (encode_fields ETCS_5 V []) Map.empty = Inr d \<and> reproduces ETCS_5 V d"
proof (cases "V ''Q_NEWCOUNTRY'' = Some 1")
  case True
  with assms show ?thesis unfolding all_fit_def reproduces_def ETCS_5_def
    by (simp add: codec_steps del: encode_fields.simps(2))
next
  case False
  then have "dict_get V ''Q_NEWCOUNTRY'' 0 \<noteq> 1" by (auto simp: dict_get_def split: option.splits)
  with False assms show ?thesis unfolding all_fit_def reproduces_def ETCS_5_def
    by (simp add: codec_steps del: encode_fields.simps(2))
qed


lemma roundtrip_ETCS_68:
  assumes "all_fit ETCS_68 V"
  shows "\<exists>d. dec_front ETCS_68 (encode_fields ETCS_68 V []) Map.empty = Inr d \<and> reproduces ETCS_68 V d"
proof -
  from assms have "fits V ''Q_TRACKINIT'' 1" by (simp add: all_fit_def ETCS_68_def flen_simps fname_simps)
  then consider "V ''Q_TRACKINIT'' = Some 1" | "V ''Q_TRACKINIT'' = Some 0" | "V ''Q_TRACKINIT'' = None"
    by (cases "V ''Q_TRACKINIT''") (auto simp: fits_def, arith)
  then show ?thesis
  proof cases
    case 1
    with assms show ?thesis unfolding all_fit_def reproduces_def ETCS_68_def
      by (simp add: codec_steps del: encode_fields.simps(2))
  next
    case 2
    with assms show ?thesis unfolding all_fit_def reproduces_def ETCS_68_def
      by (simp add: codec_steps del: encode_fields.simps(2))
  next
    case 3
    then have "dict_get V ''Q_TRACKINIT'' 0 = 0" by (simp add: dict_get_def)
    with 3 assms show ?thesis unfolding all_fit_def reproduces_def ETCS_68_def
      by (simp add: codec_steps del: encode_fields.simps(2))
  qed
qed


lemma roundtrip_ETCS_27:
  assumes "all_fit ETCS_27 V"
  shows "\<exists>d. dec_front ETCS_27 (encode_fields ETCS_27 V []) Map.empty = Inr d \<and> reproduces ETCS_27 V d"
  using assms unfolding all_fit_def reproduces_def ETCS_27_def
  by (simp add: codec_steps del: encode_fields.simps(2))

lemma roundtrip_ETCS_41:
  assumes "all_fit ETCS_41 V"
  shows "\<exists>d. dec_front ETCS_41 (encode_fields ETCS_41 V []) Map.empty = Inr d \<and> reproduces ETCS_41 V d"
proof (cases "V ''M_LEVELTR'' = Some 1")
  case True
  with assms show ?thesis unfolding all_fit_def reproduces_def ETCS_41_def
    by (simp add: codec_steps del: encode_fields.simps(2))
next
  case False
  then have "dict_get V ''M_LEVELTR'' 0 \<noteq> 1" by (auto simp: dict_get_def split: option.splits)
  with False assms show ?thesis unfolding all_fit_def reproduces_def ETCS_41_def
    by (simp add: codec_steps del: encode_fields.simps(2))
qed

lemma roundtrip_ETCS_79:
  assumes "all_fit ETCS_79 V"
  shows "\<exists>d. dec_front ETCS_79 (encode_fields ETCS_79 V []) Map.empty = Inr d \<and> reproduces ETCS_79 V d"
proof (cases "V ''Q_NEWCOUNTRY'' = Some 1")
  case True
  with assms show ?thesis unfolding all_fit_def reproduces_def ETCS_79_def
    by (simp add: codec_steps del: encode_fields.simps(2))
next
  case False
  then have "dict_get V ''Q_NEWCOUNTRY'' 0 \<noteq> 1" by (auto simp: dict_get_def split: option.splits)
  with False assms show ?thesis unfolding all_fit_def reproduces_def ETCS_79_def
    by (simp add: codec_steps del: encode_fields.simps(2))
qed

lemma roundtrip_CTCS_1:
  assumes "all_fit CTCS_1 V"
  shows "\<exists>d. dec_front CTCS_1 (encode_fields CTCS_1 V []) Map.empty = Inr d \<and> reproduces CTCS_1 V d"
  using assms unfolding all_fit_def reproduces_def CTCS_1_def
  by (simp add: codec_steps del: encode_fields.simps(2))

lemma roundtrip_CTCS_4:
  assumes "all_fit CTCS_4 V"
  shows "\<exists>d. dec_front CTCS_4 (encode_fields CTCS_4 V []) Map.empty = Inr d \<and> reproduces CTCS_4 V d"
  using assms unfolding all_fit_def reproduces_def CTCS_4_def
  by (simp add: codec_steps del: encode_fields.simps(2))

lemma roundtrip_ETCS_21:
  assumes "all_fit ETCS_21 V"
  shows "\<exists>d. dec_front ETCS_21 (encode_fields ETCS_21 V []) Map.empty = Inr d \<and> reproduces ETCS_21 V d"
  using assms unfolding all_fit_def reproduces_def ETCS_21_def
  by (simp add: codec_steps del: encode_fields.simps(2))

lemma roundtrip_known:
  assumes "PACKET_DEFS P = Some defs" "all_fit defs V"
  shows "\<exists>d. dec_front defs (encode_fields defs V []) Map.empty = Inr d \<and> reproduces defs V d"
  using known_packet_cases [OF assms(1)] assms(2)
    roundtrip_ETCS_5 roundtrip_CTCS_1 roundtrip_ETCS_21 roundtrip_ETCS_27 roundtrip_ETCS_41
    roundtrip_CTCS_2 roundtrip_CTCS_4 roundtrip_CTCS_5 roundtrip_ETCS_68 roundtrip_ETCS_79
  by auto

lemma decode_packet_front:
  assumes "PACKET_DEFS P = Some defs"
  shows "decode_packet P s =
     (case dec_front defs s Map.empty of Inl e \<Rightarrow> Inl e | Inr d \<Rightarrow> Inr (Decoded d))"
proof -
  have "dec_front defs s Map.empty =
      (case decode_fields defs s dstate0 of Inl e \<Rightarrow> Inl e | Inr st' \<Rightarrow> Inr (result st'))"
    using decode_fields_front [of dstate0 s defs] by (simp add: dstate0_def)
  then show ?thesis
    by (simp add: decode_packet_known [OF assms] split: sum.splits)
qed

text \<open>
  C1. For every known packet type \<open>P\<close> and every mapping \<open>V\<close> whose values under the
  fields of \<open>P\<close> are non-negative and fit the declared widths, decoding the encoding of
  \<open>V\<close> succeeds and returns every value of \<open>V\<close> under a field that has no fixed value
  and whose presence condition holds under \<open>V\<close>.
\<close>

theorem decode_encode_roundtrip:
  "PACKET_DEFS P = Some defs \<Longrightarrow>
   (\<forall>f\<in>set defs. \<forall>v. V (fname f) = Some v \<longrightarrow> 0 \<le> v \<and> v < 2 ^ flen f) \<Longrightarrow>
     \<exists>d. decode_packet P (encode_packet P V) = Inr (Decoded d) \<and>
         (\<forall>f\<in>set defs. \<forall>v. fval f = None \<longrightarrow> present f V \<longrightarrow> V (fname f) = Some v
            \<longrightarrow> d (fname f) = Some v)"
proof -
  assume P: "PACKET_DEFS P = Some defs"
    and V: "\<forall>f\<in>set defs. \<forall>v. V (fname f) = Some v \<longrightarrow> 0 \<le> v \<and> v < 2 ^ flen f"
  from V have "all_fit defs V" by (simp add: all_fit_def fits_def)
  from roundtrip_known [OF P this] obtain d
    where d: "dec_front defs (encode_fields defs V []) Map.empty = Inr d" "reproduces defs V d"
    by blast
  have enc: "encode_packet P V = encode_fields defs V []"
    using P known_packet_nonempty [OF P] by (simp add: encode_packet_def)
  have "decode_packet P (encode_packet P V) = Inr (Decoded d)"
    by (simp add: decode_packet_front [OF P] enc d(1))
  with d(2) show ?thesis unfolding reproduces_def by blast
qed

theorem decode_encode_roundtrip_witness:
  "PACKET_DEFS ''CTCS-5'' = Some CTCS_5 \<and>
   encode_packet ''CTCS-5'' [''Q_DIR'' \<mapsto> 1, ''Q_STOP'' \<mapsto> 1] = ''000000101011'' \<and>
   (\<exists>d. decode_packet ''CTCS-5'' (encode_packet ''CTCS-5'' [''Q_DIR'' \<mapsto> 1, ''Q_STOP'' \<mapsto> 1])
          = Inr (Decoded d) \<and> d ''Q_DIR'' = Some 1 \<and> d ''Q_STOP'' = Some 1)"
proof -
  let ?V = "[''Q_DIR'' \<mapsto> 1, ''Q_STOP'' \<mapsto> (1::int)]"
  have P: "PACKET_DEFS ''CTCS-5'' = Some CTCS_5" by (simp add: PACKET_DEFS_def)
  have V: "\<forall>f\<in>set CTCS_5. \<forall>v. ?V (fname f) = Some v \<longrightarrow> 0 \<le> v \<and> v < 2 ^ flen f"
    by (simp add: CTCS_5_def field_makers)
  from decode_encode_roundtrip [OF P V] obtain d
    where d: "decode_packet ''CTCS-5'' (encode_packet ''CTCS-5'' ?V) = Inr (Decoded d)"
      and r: "\<forall>f\<in>set CTCS_5. \<forall>v. fval f = None \<longrightarrow> present f ?V \<longrightarrow> ?V (fname f) = Some v
            \<longrightarrow> d (fname f) = Some v"
    by blast
  from r have "d ''Q_DIR'' = Some 1" "d ''Q_STOP'' = Some 1"
    by (simp_all add: CTCS_5_def field_makers present_def)
  moreover have "encode_packet ''CTCS-5'' ?V = ''000000101011''"
    by code_simp
  ultimately show ?thesis using P d by blast
qed

section \<open>Properties of group assignment\<close>

lemma is_digit_digit_char: "d < 10 \<Longrightarrow> is_digit (digit_char d)"
  by (simp add: is_digit_def digit_char_def of_char_of)

lemma digit_char_value: "d < 10 \<Longrightarrow> int (of_char (digit_char d)) - 48 = int d"
  by (simp add: digit_char_def of_char_of)

lemma is_digit_not_space: "is_digit c \<Longrightarrow> \<not> is_space c"
  by (auto simp: is_digit_def is_space_def Let_def)

lemma all_digits_dec_digits: "list_all is_digit (dec_digits n)"
proof (induction n rule: dec_digits.induct)
  case (1 n)
  show ?case
    by (subst dec_digits.simps) (use 1 in \<open>auto simp: is_digit_digit_char\<close>)
qed

lemma dec_digits_nonempty: "dec_digits n \<noteq> []"
  by (subst dec_digits.simps) simp

lemma isdigit_dec_digits: "isdigit (dec_digits n)"
  by (simp add: isdigit_def all_digits_dec_digits dec_digits_nonempty)

lemma dec_value_snoc: "dec_value (s @ [c]) = 10 * dec_value s + (int (of_char c) - 48)"
  by (simp add: dec_value_def)

lemma dec_value_dec_digits: "dec_value (dec_digits n) = int n"
proof (induction n rule: dec_digits.induct)
  case (1 n)
  show ?case
  proof (cases "n < 10")
    case True
    then show ?thesis
      by (subst dec_digits.simps) (simp add: dec_value_def digit_char_value)
  next
    case False
    with 1 have ih: "dec_value (dec_digits (n div 10)) = int (n div 10)" by simp
    have "dec_value (dec_digits n) = 10 * int (n div 10) + int (n mod 10)"
      by (subst dec_digits.simps) (simp add: False dec_value_snoc ih digit_char_value)
    also have "\<dots> = int n" by presburger
    finally show ?thesis .
  qed
qed

lemma dec_value_nonneg: "list_all is_digit s \<Longrightarrow> 0 \<le> dec_value s"
proof (induction s rule: rev_induct)
  case Nil
  show ?case by (simp add: dec_value_def)
next
  case (snoc c s)
  then have "0 \<le> dec_value s" "48 \<le> (of_char c :: nat)"
    by (simp_all add: is_digit_def Let_def)
  then show ?case by (simp add: dec_value_snoc)
qed

lemma strip_no_space: "list_all (\<lambda>c. \<not> is_space c) s \<Longrightarrow> strip s = s"
proof -
  assume a: "list_all (\<lambda>c. \<not> is_space c) s"
  have dw: "dropWhile is_space t = t" if "list_all (\<lambda>c. \<not> is_space c) t" for t
    using that by (cases t) simp_all
  from a have "list_all (\<lambda>c. \<not> is_space c) (rev s)" by (simp add: list_all_iff)
  with a show ?thesis by (simp add: strip_def dw)
qed

lemma strip_dec_digits: "strip (dec_digits n) = dec_digits n"
proof (rule strip_no_space)
  show "list_all (\<lambda>c. \<not> is_space c) (dec_digits n)"
    using all_digits_dec_digits [of n] by (auto simp: list_all_iff is_digit_not_space)
qed

lemma sub_id_int_assigned:
  "0 \<le> n \<Longrightarrow> sub_id_int py (b(''sub_id'' \<mapsto> StrV (py_str py (IntV n)))) = Some n"
  by (simp add: sub_id_int_def sub_id_text_def dict_get_def strip_dec_digits isdigit_dec_digits
      dec_value_dec_digits)

lemma sub_id_int_nonneg: "sub_id_int py b = Some v \<Longrightarrow> 0 \<le> v"
  by (auto simp: sub_id_int_def Let_def isdigit_def dec_value_nonneg split: if_splits)

lemma sub_id_int_None_iff: "sub_id_int py b = None \<longleftrightarrow> \<not> isdigit (sub_id_text py b)"
  by (simp add: sub_id_int_def Let_def)

lemma isdigit_nonempty: "isdigit s \<Longrightarrow> s \<noteq> []"
  by (simp add: isdigit_def)

lemma next_free_fresh: "next_free used n \<notin> set used"
  by (induction used n rule: next_free.induct) (subst next_free.simps, simp)

lemma next_free_ge: "n \<le> next_free used n"
proof (induction used n rule: next_free.induct)
  case (1 used n)
  show ?case
  proof (cases "n \<in> set used")
    case True
    with 1 have "n + 1 \<le> next_free used (n + 1)" by simp
    then show ?thesis by (subst next_free.simps) (simp add: True)
  next
    case False
    then show ?thesis by (subst next_free.simps) simp
  qed
qed

lemma set_used_ids_of:
  "set (used_ids_of py bs grp used)
     = set used \<union> {v. \<exists>i\<in>set grp. sub_id_int py (bs ! i) = Some v}"
  by (induction grp arbitrary: used) (auto simp: Let_def sub_id_int_def)

lemma supplied_ids_Nil: "supplied_ids py bs [] = []"
  by (simp add: supplied_ids_def map_filter_def)

lemma supplied_ids_Cons:
  "supplied_ids py bs (i # rest) =
     (case sub_id_int py (bs ! i) of None \<Rightarrow> supplied_ids py bs rest
      | Some v \<Rightarrow> v # supplied_ids py bs rest)"
  by (simp add: supplied_ids_def map_filter_def split: option.splits)

lemma set_supplied_ids:
  "set (supplied_ids py bs grp) = {v. \<exists>i\<in>set grp. sub_id_int py (bs ! i) = Some v}"
  by (induction grp) (auto simp: supplied_ids_Nil supplied_ids_Cons split: option.splits)

lemma supplied_ids_cong:
  "(\<And>i. i \<in> set grp \<Longrightarrow> sub_id_int py (bs' ! i) = sub_id_int py (bs ! i))
     \<Longrightarrow> supplied_ids py bs' grp = supplied_ids py bs grp"
  by (induction grp) (auto simp: supplied_ids_Nil supplied_ids_Cons split: option.splits)

lemma fill_missing_filled:
  assumes "fill_missing py grp (bs, nx, used) = (bs', nx', used')"
    and "distinct grp" and "\<forall>i\<in>set grp. i < length bs"
    and "set (supplied_ids py bs grp) \<subseteq> set used"
    and "distinct (supplied_ids py bs grp)" and "0 \<le> nx"
  shows "filled py grp used bs bs'"
  using assms
proof (induction grp arbitrary: bs nx used)
  case Nil
  then show ?case by (simp add: filled_def)
next
  case (Cons i rest)
  from Cons.prems(2) have i_rest: "i \<notin> set rest" and d_rest: "distinct rest" by simp_all
  from Cons.prems(3) have i_len: "i < length bs" and rest_len: "\<forall>j\<in>set rest. j < length bs"
    by simp_all
  show ?case
  proof (cases "isdigit (sub_id_text py (bs ! i))")
    case True
    define w where "w = dec_value (sub_id_text py (bs ! i))"
    from True have sid: "sub_id_int py (bs ! i) = Some w"
      by (simp add: sub_id_int_def w_def)
    from True have ne: "sub_id_text py (bs ! i) \<noteq> []" by (rule isdigit_nonempty)
    from Cons.prems(1) True ne have run: "fill_missing py rest (bs, nx, used) = (bs', nx', used')"
      by simp
    from sid have sup: "supplied_ids py bs (i # rest) = w # supplied_ids py bs rest"
      by (simp add: supplied_ids_Cons)
    from Cons.prems(4,5) sup have w_used: "w \<in> set used"
      and sub: "set (supplied_ids py bs rest) \<subseteq> set used"
      and w_new: "w \<notin> set (supplied_ids py bs rest)"
      and dis: "distinct (supplied_ids py bs rest)"
      by simp_all
    from Cons.IH [OF run d_rest rest_len sub dis Cons.prems(6)]
    have ih: "filled py rest used bs bs'" .
    from ih i_rest have same: "bs' ! i = bs ! i" by (simp add: filled_def)
    have fresh: "Some w \<notin> set (map (\<lambda>j. sub_id_int py (bs' ! j)) rest)"
    proof
      assume "Some w \<in> set (map (\<lambda>j. sub_id_int py (bs' ! j)) rest)"
      then obtain j where j: "j \<in> set rest" "sub_id_int py (bs' ! j) = Some w" by auto
      with ih have "sub_id_int py (bs ! j) = Some w \<or> w \<notin> set used"
        unfolding filled_def by fastforce
      with w_used have "sub_id_int py (bs ! j) = Some w" by simp
      with j(1) have "w \<in> set (supplied_ids py bs rest)" by (auto simp: set_supplied_ids)
      with w_new show False by simp
    qed
    from sid have "0 \<le> w" by (rule sub_id_int_nonneg)
    with ih same sid fresh show ?thesis unfolding filled_def by auto
  next
    case False
    define n where "n = next_free used nx"
    define bs1 where "bs1 = bs[i := (bs ! i)(''sub_id'' \<mapsto> StrV (py_str py (IntV n)))]"
    from False have sid: "sub_id_int py (bs ! i) = None" by (simp add: sub_id_int_None_iff)
    from Cons.prems(1) False
    have run: "fill_missing py rest (bs1, n, List.insert n used) = (bs', nx', used')"
      by (simp add: Let_def n_def bs1_def)
    have n_fresh: "n \<notin> set used" unfolding n_def by (rule next_free_fresh)
    have "nx \<le> n" unfolding n_def by (rule next_free_ge)
    with Cons.prems(6) have n0: "0 \<le> n" by simp
    have unch: "bs1 ! j = bs ! j" if "j \<noteq> i" for j using that by (simp add: bs1_def)
    have at_i: "bs1 ! i = (bs ! i)(''sub_id'' \<mapsto> StrV (py_str py (IntV n)))"
      using i_len by (simp add: bs1_def)
    have len1: "length bs1 = length bs" by (simp add: bs1_def)
    have keys1: "(bs1 ! j) k = (bs ! j) k" if "k \<noteq> ''sub_id''" for j k
      using that i_len by (cases "j = i") (simp_all add: bs1_def)
    have sup1: "supplied_ids py bs1 rest = supplied_ids py bs rest"
    proof (rule supplied_ids_cong)
      fix j assume "j \<in> set rest"
      with i_rest have "j \<noteq> i" by auto
      then show "sub_id_int py (bs1 ! j) = sub_id_int py (bs ! j)" by (simp add: unch)
    qed
    from sid have sup: "supplied_ids py bs (i # rest) = supplied_ids py bs rest"
      by (simp add: supplied_ids_Cons)
    from Cons.prems(4,5) sup sup1
    have sub: "set (supplied_ids py bs1 rest) \<subseteq> set (List.insert n used)"
      and dis: "distinct (supplied_ids py bs1 rest)"
      by auto
    from rest_len len1 have rest_len1: "\<forall>j\<in>set rest. j < length bs1" by simp
    from Cons.IH [OF run d_rest rest_len1 sub dis n0]
    have ih: "filled py rest (List.insert n used) bs1 bs'" .
    from ih i_rest at_i have at_i': "bs' ! i = (bs ! i)(''sub_id'' \<mapsto> StrV (py_str py (IntV n)))"
      by (simp add: filled_def)
    have sid': "sub_id_int py (bs' ! i) = Some n"
      unfolding at_i' using n0 by (rule sub_id_int_assigned)
    have rest_ids: "\<exists>v. sub_id_int py (bs' ! j) = Some v \<and> 0 \<le> v \<and> v \<noteq> n \<and>
         (sub_id_int py (bs ! j) = Some v \<or> v \<notin> set used)" if "j \<in> set rest" for j
    proof -
      from ih that obtain v where v: "sub_id_int py (bs' ! j) = Some v" "0 \<le> v"
        "sub_id_int py (bs1 ! j) = Some v \<or> v \<notin> set (List.insert n used)"
        unfolding filled_def by blast
      from that i_rest have "j \<noteq> i" by auto
      then have eq: "bs1 ! j = bs ! j" by (rule unch)
      show ?thesis
      proof (cases "sub_id_int py (bs ! j) = Some v")
        case True
        with that have "v \<in> set (supplied_ids py bs rest)" by (auto simp: set_supplied_ids)
        with Cons.prems(4) sup have "v \<in> set used" by auto
        with n_fresh have "v \<noteq> n" by auto
        with v True show ?thesis by blast
      next
        case False
        with v(3) eq have "v \<notin> set (List.insert n used)" by simp
        then have "v \<noteq> n" "v \<notin> set used" by auto
        with v show ?thesis by blast
      qed
    qed
    have fresh: "Some n \<notin> set (map (\<lambda>j. sub_id_int py (bs' ! j)) rest)"
      using rest_ids by fastforce
    have other: "bs' ! j = bs ! j" if "j \<notin> set (i # rest)" for j
    proof -
      from that have "j \<notin> set rest" "j \<noteq> i" by auto
      with ih unch show ?thesis by (simp add: filled_def)
    qed
    have keys: "(bs' ! j) k = (bs ! j) k" if "k \<noteq> ''sub_id''" for j k
      using ih keys1 that by (simp add: filled_def)
    have all_ids: "\<exists>v. sub_id_int py (bs' ! j) = Some v \<and> 0 \<le> v \<and>
         (sub_id_int py (bs ! j) = Some v \<or> v \<notin> set used)" if "j \<in> set (i # rest)" for j
    proof (cases "j = i")
      case True
      with sid' n0 n_fresh show ?thesis by blast
    next
      case False
      with that have "j \<in> set rest" by simp
      from rest_ids [OF this] show ?thesis by blast
    qed
    from ih have A: "length bs' = length bs"
      and dist: "distinct (map (\<lambda>i. sub_id_int py (bs' ! i)) rest)"
      by (simp_all add: filled_def len1)
    from other have B: "\<forall>j. j \<notin> set (i # rest) \<longrightarrow> bs' ! j = bs ! j" by blast
    from keys have C: "\<forall>j k. k \<noteq> ''sub_id'' \<longrightarrow> (bs' ! j) k = (bs ! j) k" by blast
    from all_ids have D: "\<forall>j\<in>set (i # rest). \<exists>v. sub_id_int py (bs' ! j) = Some v \<and> 0 \<le> v \<and>
         (sub_id_int py (bs ! j) = Some v \<or> v \<notin> set used)" by blast
    from fresh sid' dist have E: "distinct (map (\<lambda>i. sub_id_int py (bs' ! i)) (i # rest))"
      by simp
    show ?thesis unfolding filled_def
    proof (intro conjI)
      show "length bs' = length bs" by (fact A)
      show "\<forall>j. j \<notin> set (i # rest) \<longrightarrow> bs' ! j = bs ! j" by (fact B)
      show "\<forall>j k. k \<noteq> ''sub_id'' \<longrightarrow> (bs' ! j) k = (bs ! j) k" by (fact C)
      show "\<forall>j\<in>set (i # rest). \<exists>v. sub_id_int py (bs' ! j) = Some v \<and> 0 \<le> v \<and>
         (sub_id_int py (bs ! j) = Some v \<or> v \<notin> set used)" by (fact D)
      show "distinct (map (\<lambda>i. sub_id_int py (bs' ! i)) (i # rest))" by (fact E)
    qed
  qed
qed

lemma sub_id_int_cong: "b ''sub_id'' = b' ''sub_id'' \<Longrightarrow> sub_id_int py b = sub_id_int py b'"
  by (simp add: sub_id_int_def sub_id_text_def dict_get_def)

lemma father_id_cong:
  "b ''father_balise'' = b' ''father_balise'' \<Longrightarrow> father_id py b = father_id py b'"
  by (simp add: father_id_def dict_get_def)

lemma good_ids_cong:
  assumes "\<And>i. i \<in> set grp \<Longrightarrow> (bs' ! i) ''sub_id'' = (bs ! i) ''sub_id''"
  shows "good_ids py grp bs' = good_ids py grp bs"
proof -
  have eq: "sub_id_int py (bs' ! i) = sub_id_int py (bs ! i)" if "i \<in> set grp" for i
    using assms [OF that] by (rule sub_id_int_cong)
  then have m: "map (\<lambda>i. sub_id_int py (bs' ! i)) grp = map (\<lambda>i. sub_id_int py (bs ! i)) grp"
    by simp
  have q: "(\<forall>i\<in>set grp. \<exists>v. sub_id_int py (bs' ! i) = Some v \<and> 0 \<le> v)
      = (\<forall>i\<in>set grp. \<exists>v. sub_id_int py (bs ! i) = Some v \<and> 0 \<le> v)"
    using eq by simp
  show ?thesis by (simp only: good_ids_def m q)
qed

lemma length_update_group: "length (update_group py c grp bs) = length bs"
proof (induction grp arbitrary: bs)
  case Nil
  show ?case by simp
next
  case (Cons i rest)
  show ?case by (simp only: update_group.simps Let_def Cons.IH length_list_update)
qed

lemma update_group_other: "j \<notin> set grp \<Longrightarrow> update_group py c grp bs ! j = bs ! j"
  by (induction grp arbitrary: bs) (auto simp: Let_def)

lemma update_group_keys:
  "k \<noteq> ''n_total'' \<Longrightarrow> k \<noteq> ''n_pig'' \<Longrightarrow> k \<noteq> ''q_link'' \<Longrightarrow>
     (update_group py c grp bs ! j) k = (bs ! j) k"
proof (induction grp arbitrary: bs)
  case Nil
  show ?case by simp
next
  case (Cons i rest)
  let ?b = "((bs ! i)(''n_total'' \<mapsto> StrV (py_str py (IntV (int c)))))"
  let ?b3 = "?b(''n_pig'' \<mapsto> StrV (n_pig_of ?b), ''q_link'' \<mapsto> StrV (q_link_of c))"
  have "(bs[i := ?b3] ! j) k = (bs ! j) k"
    using Cons.prems by (cases "i < length bs"; cases "j = i") (simp_all add: not_less list_update_beyond)
  with Cons.IH [OF Cons.prems, of "bs[i := ?b3]"] show ?case by (simp add: Let_def)
qed

lemma length_update_group_ids: "length (update_group_ids py c grp bs) = length bs"
  by (induction grp arbitrary: bs) (simp_all add: Let_def)

lemma update_group_ids_other: "j \<notin> set grp \<Longrightarrow> update_group_ids py c grp bs ! j = bs ! j"
  by (induction grp arbitrary: bs) (auto simp: Let_def)

lemma update_group_ids_keys:
  "k \<noteq> ''n_total'' \<Longrightarrow> k \<noteq> ''q_link'' \<Longrightarrow>
     (update_group_ids py c grp bs ! j) k = (bs ! j) k"
proof (induction grp arbitrary: bs)
  case Nil
  show ?case by simp
next
  case (Cons i rest)
  let ?b2 = "(bs ! i)(''n_total'' \<mapsto> StrV (py_str py (IntV (int c))),
                     ''q_link'' \<mapsto> StrV (q_link_of c))"
  have "(bs[i := ?b2] ! j) k = (bs ! j) k"
    using Cons.prems by (cases "i < length bs"; cases "j = i") (simp_all add: not_less list_update_beyond)
  with Cons.IH [OF Cons.prems, of "bs[i := ?b2]"] show ?case by (simp add: Let_def)
qed

lemma fill_group_filled:
  assumes "distinct grp" "\<forall>i\<in>set grp. i < length bs" "distinct (supplied_ids py bs grp)"
  shows "filled py grp (used_ids_of py bs grp []) bs (fill_group py grp bs)"
proof -
  obtain bs1 nx used where run:
    "fill_missing py grp (bs, 0, used_ids_of py bs grp []) = (bs1, nx, used)"
    by (cases "fill_missing py grp (bs, 0, used_ids_of py bs grp [])") auto
  have sub: "set (supplied_ids py bs grp) \<subseteq> set (used_ids_of py bs grp [])"
    by (auto simp: set_supplied_ids set_used_ids_of)
  from fill_missing_filled [OF run assms(1,2) sub assms(3)]
  have "filled py grp (used_ids_of py bs grp []) bs bs1" by simp
  with run show ?thesis by (simp add: fill_group_def)
qed

lemma filled_good:
  assumes "filled py grp used bs bs'"
  shows "good_ids py grp bs'"
proof -
  from assms have a: "\<forall>i\<in>set grp. \<exists>v. sub_id_int py (bs' ! i) = Some v \<and> 0 \<le> v \<and>
         (sub_id_int py (bs ! i) = Some v \<or> v \<notin> set used)"
    and d: "distinct (map (\<lambda>i. sub_id_int py (bs' ! i)) grp)"
    by (simp_all add: filled_def)
  have "\<exists>v. sub_id_int py (bs' ! i) = Some v \<and> 0 \<le> v" if "i \<in> set grp" for i
  proof -
    from a that obtain v where "sub_id_int py (bs' ! i) = Some v \<and> 0 \<le> v \<and>
         (sub_id_int py (bs ! i) = Some v \<or> v \<notin> set used)" by blast
    then show ?thesis by blast
  qed
  with d show ?thesis by (simp add: good_ids_def)
qed

lemma process_group_eq:
  "process_group py grp bs = update_group py (length grp) grp (fill_group py grp bs)"
  by (simp add: process_group_def fill_group_def Let_def split: prod.splits)

lemma process_group_ids_eq:
  "process_group_ids py grp bs = update_group_ids py (length grp) grp (fill_group py grp bs)"
  by (simp add: process_group_ids_def fill_group_def Let_def split: prod.splits)

lemma fill_missing_frame:
  "fill_missing py grp (bs, nx, used) = (bs', nx', used') \<Longrightarrow>
     length bs' = length bs \<and> (\<forall>j. j \<notin> set grp \<longrightarrow> bs' ! j = bs ! j) \<and>
     (\<forall>j k. k \<noteq> ''sub_id'' \<longrightarrow> (bs' ! j) k = (bs ! j) k)"
proof (induction grp arbitrary: bs nx used)
  case Nil
  then show ?case by simp
next
  case (Cons i rest)
  show ?case
  proof (cases "sub_id_text py (bs ! i) = [] \<or> \<not> isdigit (sub_id_text py (bs ! i))")
    case False
    with Cons.prems have "fill_missing py rest (bs, nx, used) = (bs', nx', used')" by simp
    from Cons.IH [OF this] show ?thesis by simp
  next
    case True
    define n where "n = next_free used nx"
    define bs1 where "bs1 = bs[i := (bs ! i)(''sub_id'' \<mapsto> StrV (py_str py (IntV n)))]"
    from Cons.prems True
    have "fill_missing py rest (bs1, n, List.insert n used) = (bs', nx', used')"
      by (simp add: Let_def n_def bs1_def)
    from Cons.IH [OF this]
    have ih: "length bs' = length bs1" "\<And>j. j \<notin> set rest \<Longrightarrow> bs' ! j = bs1 ! j"
      "\<And>j k. k \<noteq> ''sub_id'' \<Longrightarrow> (bs' ! j) k = (bs1 ! j) k"
      by simp_all
    have keys1: "(bs1 ! j) k = (bs ! j) k" if "k \<noteq> ''sub_id''" for j k
      using that by (cases "i < length bs"; cases "j = i")
        (simp_all add: bs1_def not_less list_update_beyond)
    have "bs' ! j = bs ! j" if "j \<notin> set (i # rest)" for j
      using that ih(2) [of j] by (simp add: bs1_def)
    moreover have "(bs' ! j) k = (bs ! j) k" if "k \<noteq> ''sub_id''" for j k
      using that ih(3) keys1 by simp
    moreover have "length bs' = length bs" using ih(1) by (simp add: bs1_def)
    ultimately show ?thesis by blast
  qed
qed

lemma fill_group_frame:
  "length (fill_group py grp bs) = length bs"
  "j \<notin> set grp \<Longrightarrow> fill_group py grp bs ! j = bs ! j"
  "k \<noteq> ''sub_id'' \<Longrightarrow> (fill_group py grp bs ! j) k = (bs ! j) k"
proof -
  obtain bs1 nx used where run:
    "fill_missing py grp (bs, 0, used_ids_of py bs grp []) = (bs1, nx, used)"
    by (cases "fill_missing py grp (bs, 0, used_ids_of py bs grp [])") auto
  then have eq: "fill_group py grp bs = bs1" by (simp add: fill_group_def)
  from fill_missing_frame [OF run]
  show "length (fill_group py grp bs) = length bs"
    "j \<notin> set grp \<Longrightarrow> fill_group py grp bs ! j = bs ! j"
    "k \<noteq> ''sub_id'' \<Longrightarrow> (fill_group py grp bs ! j) k = (bs ! j) k"
    unfolding eq by simp_all
qed

lemma group_stepI:
  assumes "\<And>grp bs. distinct grp \<Longrightarrow> \<forall>i\<in>set grp. i < length bs \<Longrightarrow>
             length (step grp bs) = length bs"
    and "\<And>grp bs j. distinct grp \<Longrightarrow> \<forall>i\<in>set grp. i < length bs \<Longrightarrow> j \<notin> set grp \<Longrightarrow>
             step grp bs ! j = bs ! j"
    and "\<And>grp bs j. distinct grp \<Longrightarrow> \<forall>i\<in>set grp. i < length bs \<Longrightarrow>
             (step grp bs ! j) ''father_balise'' = (bs ! j) ''father_balise''"
    and "\<And>grp bs. distinct grp \<Longrightarrow> \<forall>i\<in>set grp. i < length bs \<Longrightarrow>
             distinct (supplied_ids py bs grp) \<Longrightarrow> good_ids py grp (step grp bs)"
  shows "group_step py step"
  unfolding group_step_def using assms by simp

lemma group_step_length:
  "group_step py step \<Longrightarrow> distinct grp \<Longrightarrow> \<forall>i\<in>set grp. i < length bs \<Longrightarrow>
     length (step grp bs) = length bs"
  unfolding group_step_def by simp

lemma group_step_other:
  "group_step py step \<Longrightarrow> distinct grp \<Longrightarrow> \<forall>i\<in>set grp. i < length bs \<Longrightarrow> j \<notin> set grp \<Longrightarrow>
     step grp bs ! j = bs ! j"
  unfolding group_step_def by simp

lemma group_step_father:
  "group_step py step \<Longrightarrow> distinct grp \<Longrightarrow> \<forall>i\<in>set grp. i < length bs \<Longrightarrow>
     (step grp bs ! j) ''father_balise'' = (bs ! j) ''father_balise''"
  unfolding group_step_def by simp

lemma group_step_good:
  "group_step py step \<Longrightarrow> distinct grp \<Longrightarrow> \<forall>i\<in>set grp. i < length bs \<Longrightarrow>
     distinct (supplied_ids py bs grp) \<Longrightarrow> good_ids py grp (step grp bs)"
  unfolding group_step_def by simp

lemma group_step_process_group: "group_step py (process_group py)"
proof (rule group_stepI)
  fix grp and bs :: "balise list" and j
  assume d: "distinct grp" and r: "\<forall>i\<in>set grp. i < length bs"
  let ?f = "fill_group py grp bs"
  show "length (process_group py grp bs) = length bs"
    by (simp add: process_group_eq length_update_group fill_group_frame)
  show "process_group py grp bs ! j = bs ! j" if "j \<notin> set grp"
    using that by (simp add: process_group_eq update_group_other fill_group_frame)
  show "(process_group py grp bs ! j) ''father_balise'' = (bs ! j) ''father_balise''"
    by (simp add: process_group_eq update_group_keys fill_group_frame)
  show "good_ids py grp (process_group py grp bs)" if s: "distinct (supplied_ids py bs grp)"
  proof -
    from fill_group_filled [OF d r s] have "good_ids py grp ?f" by (rule filled_good)
    moreover have "good_ids py grp (process_group py grp bs) = good_ids py grp ?f"
      by (rule good_ids_cong) (simp add: process_group_eq update_group_keys)
    ultimately show ?thesis by simp
  qed
qed

lemma group_step_process_group_ids: "group_step py (process_group_ids py)"
proof (rule group_stepI)
  fix grp and bs :: "balise list" and j
  assume d: "distinct grp" and r: "\<forall>i\<in>set grp. i < length bs"
  let ?f = "fill_group py grp bs"
  show "length (process_group_ids py grp bs) = length bs"
    by (simp add: process_group_ids_eq length_update_group_ids fill_group_frame)
  show "process_group_ids py grp bs ! j = bs ! j" if "j \<notin> set grp"
    using that by (simp add: process_group_ids_eq update_group_ids_other fill_group_frame)
  show "(process_group_ids py grp bs ! j) ''father_balise'' = (bs ! j) ''father_balise''"
    by (simp add: process_group_ids_eq update_group_ids_keys fill_group_frame)
  show "good_ids py grp (process_group_ids py grp bs)" if s: "distinct (supplied_ids py bs grp)"
  proof -
    from fill_group_filled [OF d r s] have "good_ids py grp ?f" by (rule filled_good)
    moreover have "good_ids py grp (process_group_ids py grp bs) = good_ids py grp ?f"
      by (rule good_ids_cong) (simp add: process_group_ids_eq update_group_ids_keys)
    ultimately show ?thesis by simp
  qed
qed

lemma fold_groups_Nil: "fold_groups step bs [] = bs"
  by (simp add: fold_groups_def)

lemma fold_groups_Cons: "fold_groups step bs (g # gs) = fold_groups step (step (snd g) bs) gs"
  by (cases g) (simp add: fold_groups_def)

lemma wf_groups_Cons:
  "wf_groups bs (g # gs) \<longleftrightarrow>
     distinct (snd g) \<and> (\<forall>i\<in>set (snd g). i < length bs) \<and> wf_groups bs gs"
  by (simp add: wf_groups_def)

lemma wf_groups_length: "length bs' = length bs \<Longrightarrow> wf_groups bs' gs = wf_groups bs gs"
  by (simp add: wf_groups_def)

lemma length_fold_groups:
  "group_step py step \<Longrightarrow> wf_groups bs gs \<Longrightarrow> length (fold_groups step bs gs) = length bs"
proof (induction gs arbitrary: bs)
  case Nil
  show ?case by (simp add: fold_groups_Nil)
next
  case (Cons g gs)
  from Cons.prems(2) have m: "distinct (snd g)" "\<forall>i\<in>set (snd g). i < length bs"
    and w: "wf_groups bs gs" by (simp_all add: wf_groups_Cons)
  have len: "length (step (snd g) bs) = length bs"
    by (rule group_step_length [OF Cons.prems(1) m])
  with w have "wf_groups (step (snd g) bs) gs" by (simp only: wf_groups_length [OF len])
  from Cons.IH [OF Cons.prems(1) this] len show ?case by (simp add: fold_groups_Cons)
qed

lemma fold_groups_other:
  "group_step py step \<Longrightarrow> wf_groups bs gs \<Longrightarrow> \<forall>g\<in>set gs. j \<notin> set (snd g) \<Longrightarrow>
     fold_groups step bs gs ! j = bs ! j"
proof (induction gs arbitrary: bs)
  case Nil
  show ?case by (simp add: fold_groups_Nil)
next
  case (Cons g gs)
  from Cons.prems(2) have m: "distinct (snd g)" "\<forall>i\<in>set (snd g). i < length bs"
    and w: "wf_groups bs gs" by (simp_all add: wf_groups_Cons)
  from Cons.prems(3) have j: "j \<notin> set (snd g)" and js: "\<forall>g\<in>set gs. j \<notin> set (snd g)"
    by simp_all
  have len: "length (step (snd g) bs) = length bs"
    by (rule group_step_length [OF Cons.prems(1) m])
  with w have w1: "wf_groups (step (snd g) bs) gs" by (simp only: wf_groups_length [OF len])
  have "step (snd g) bs ! j = bs ! j" by (rule group_step_other [OF Cons.prems(1) m j])
  with Cons.IH [OF Cons.prems(1) w1 js] show ?case by (simp add: fold_groups_Cons)
qed

lemma fold_groups_father:
  "group_step py step \<Longrightarrow> wf_groups bs gs \<Longrightarrow>
     (fold_groups step bs gs ! j) ''father_balise'' = (bs ! j) ''father_balise''"
proof (induction gs arbitrary: bs)
  case Nil
  show ?case by (simp add: fold_groups_Nil)
next
  case (Cons g gs)
  from Cons.prems(2) have m: "distinct (snd g)" "\<forall>i\<in>set (snd g). i < length bs"
    and w: "wf_groups bs gs" by (simp_all add: wf_groups_Cons)
  have len: "length (step (snd g) bs) = length bs"
    by (rule group_step_length [OF Cons.prems(1) m])
  with w have w1: "wf_groups (step (snd g) bs) gs" by (simp only: wf_groups_length [OF len])
  have "(step (snd g) bs ! j) ''father_balise'' = (bs ! j) ''father_balise''"
    by (rule group_step_father [OF Cons.prems(1) m])
  with Cons.IH [OF Cons.prems(1) w1] show ?case by (simp add: fold_groups_Cons)
qed

lemma fold_groups_good:
  assumes step: "group_step py step"
  shows "wf_groups bs gs \<Longrightarrow> g0 \<in> set gs \<Longrightarrow> distinct (supplied_ids py bs (snd g0)) \<Longrightarrow>
    \<forall>g\<in>set gs. g = g0 \<or> set (snd g) \<inter> set (snd g0) = {} \<Longrightarrow> distinct gs \<Longrightarrow>
    good_ids py (snd g0) (fold_groups step bs gs)"
proof (induction gs arbitrary: bs)
  case Nil
  then show ?case by simp
next
  case (Cons g gs)
  from Cons.prems(1) have m: "distinct (snd g)" "\<forall>i\<in>set (snd g). i < length bs"
    and w: "wf_groups bs gs" by (simp_all add: wf_groups_Cons)
  have len: "length (step (snd g) bs) = length bs"
    by (rule group_step_length [OF step m])
  with w have w1: "wf_groups (step (snd g) bs) gs" by (simp only: wf_groups_length [OF len])
  from Cons.prems(4) have disj: "\<forall>h\<in>set gs. h = g0 \<or> set (snd h) \<inter> set (snd g0) = {}"
    by simp
  from Cons.prems(5) have dgs: "distinct gs" and g_new: "g \<notin> set gs" by simp_all
  show ?case
  proof (cases "g = g0")
    case True
    from Cons.prems(3) True have "distinct (supplied_ids py bs (snd g))" by simp
    from group_step_good [OF step m this] True
    have good: "good_ids py (snd g0) (step (snd g) bs)" by simp
    have "fold_groups step (step (snd g) bs) gs ! j = step (snd g) bs ! j"
      if "j \<in> set (snd g0)" for j
    proof (rule fold_groups_other [OF step w1], rule ballI)
      fix h assume h: "h \<in> set gs"
      with g_new True have "h \<noteq> g0" by auto
      with disj h have "set (snd h) \<inter> set (snd g0) = {}" by blast
      with that show "j \<notin> set (snd h)" by blast
    qed
    then have "good_ids py (snd g0) (fold_groups step (step (snd g) bs) gs)
        = good_ids py (snd g0) (step (snd g) bs)"
      by (intro good_ids_cong) simp
    with good show ?thesis by (simp add: fold_groups_Cons)
  next
    case False
    with Cons.prems(2) have in_rest: "g0 \<in> set gs" by simp
    from False Cons.prems(4) have d0: "set (snd g) \<inter> set (snd g0) = {}" by simp
    have "step (snd g) bs ! j = bs ! j" if "j \<in> set (snd g0)" for j
    proof (rule group_step_other [OF step m])
      from d0 that show "j \<notin> set (snd g)" by blast
    qed
    then have "supplied_ids py (step (snd g) bs) (snd g0) = supplied_ids py bs (snd g0)"
      by (intro supplied_ids_cong) simp
    with Cons.prems(3) have s1: "distinct (supplied_ids py (step (snd g) bs) (snd g0))"
      by simp
    from Cons.IH [OF w1 in_rest s1 disj dgs] show ?thesis by (simp add: fold_groups_Cons)
  qed
qed

lemma group_by_father_with: "group_by_father py rest st = group_by_with single py rest st"
  by (induction rest arbitrary: st) (auto simp: Let_def split: prod.splits)

lemma group_by_father_ids_with:
  "group_by_father_ids py rest st = group_by_with single_ids py rest st"
  by (induction rest arbitrary: st) (auto simp: Let_def split: prod.splits)

lemma map_of_groups_append:
  "map_of (groups_append gs k i) k' =
     (if k' = k then Some (members gs k @ [i]) else map_of gs k')"
  by (induction gs) (auto simp: members_def)

lemma keys_groups_append:
  "map fst (groups_append gs k i) =
     (if k \<in> set (map fst gs) then map fst gs else map fst gs @ [k])"
  by (induction gs) (auto simp: image_iff, force+)

lemma distinct_groups_append:
  "distinct (map fst gs) \<Longrightarrow> distinct (map fst (groups_append gs k i))"
  by (simp add: keys_groups_append)

lemma group_by_with_spec:
  assumes keep: "\<And>b. f b ''father_balise'' = b ''father_balise''"
  shows "group_by_with f py rest (bs, gs) = (bs', gs') \<Longrightarrow> distinct (map fst gs) \<Longrightarrow>
     length bs' = length bs \<and>
     (\<forall>j. father_id py (bs ! j) \<noteq> [] \<longrightarrow> bs' ! j = bs ! j) \<and>
     (\<forall>j. (bs' ! j) ''father_balise'' = (bs ! j) ''father_balise'') \<and>
     distinct (map fst gs') \<and>
     (\<forall>k. map_of gs' k =
        (if k \<noteq> [] \<and> (\<exists>i\<in>set rest. father_id py (bs ! i) = k)
         then Some (members gs k @ filter (\<lambda>i. father_id py (bs ! i) = k) rest)
         else map_of gs k))"
proof (induction rest arbitrary: bs gs)
  case Nil
  then show ?case by simp
next
  case (Cons i rest)
  define father where "father = father_id py (bs ! i)"
  show ?case
  proof (cases "father = []")
    case False
    let ?ga = "groups_append gs father i"
    from Cons.prems(1) False have run: "group_by_with f py rest (bs, ?ga) = (bs', gs')"
      by (simp add: father_def Let_def)
    have dga: "distinct (map fst ?ga)" by (rule distinct_groups_append [OF Cons.prems(2)])
    note ih = Cons.IH [OF run dga]
    have mem: "members ?ga k = (if k = father then members gs k @ [i] else members gs k)" for k
      by (simp add: members_def map_of_groups_append)
    have "map_of gs' k =
        (if k \<noteq> [] \<and> (\<exists>i'\<in>set (i # rest). father_id py (bs ! i') = k)
         then Some (members gs k @ filter (\<lambda>i. father_id py (bs ! i) = k) (i # rest))
         else map_of gs k)" for k
    proof (cases "k = father")
      case True
      with False ih show ?thesis
        by (simp add: mem map_of_groups_append father_def [symmetric])
    next
      case neq: False
      then have "father_id py (bs ! i) \<noteq> k" by (simp add: father_def)
      with neq False ih show ?thesis by (auto simp: mem map_of_groups_append)
    qed
    with ih show ?thesis by blast
  next
    case True
    define bs1 where "bs1 = bs[i := f (bs ! i)]"
    from Cons.prems(1) True have run: "group_by_with f py rest (bs1, gs) = (bs', gs')"
      by (simp add: father_def Let_def bs1_def)
    note ih = Cons.IH [OF run Cons.prems(2)]
    have key1: "(bs1 ! j) ''father_balise'' = (bs ! j) ''father_balise''" for j
      by (cases "i < length bs"; cases "j = i")
        (simp_all add: bs1_def keep not_less list_update_beyond)
    then have fid1: "father_id py (bs1 ! j) = father_id py (bs ! j)" for j
      by (rule father_id_cong)
    have other: "bs1 ! j = bs ! j" if "father_id py (bs ! j) \<noteq> []" for j
    proof -
      from that True have "j \<noteq> i" by (auto simp: father_def)
      then show ?thesis by (simp add: bs1_def)
    qed
    have "map_of gs' k =
        (if k \<noteq> [] \<and> (\<exists>i'\<in>set (i # rest). father_id py (bs ! i') = k)
         then Some (members gs k @ filter (\<lambda>i. father_id py (bs ! i) = k) (i # rest))
         else map_of gs k)" for k
    proof (cases "k = []")
      case True
      with ih show ?thesis by simp
    next
      case False
      with True have "father_id py (bs ! i) \<noteq> k" by (auto simp: father_def)
      with ih show ?thesis by (simp add: fid1)
    qed
    moreover from ih have "length bs' = length bs" by (simp add: bs1_def)
    moreover from ih other have "\<forall>j. father_id py (bs ! j) \<noteq> [] \<longrightarrow> bs' ! j = bs ! j"
      by (simp add: fid1)
    moreover from ih key1 have "\<forall>j. (bs' ! j) ''father_balise'' = (bs ! j) ''father_balise''"
      by simp
    moreover from ih have "distinct (map fst gs')" by simp
    ultimately show ?thesis by blast
  qed
qed

lemma single_father: "single b ''father_balise'' = b ''father_balise''"
  by (simp add: single_def)

lemma single_ids_father: "single_ids b ''father_balise'' = b ''father_balise''"
  by (simp add: single_ids_def)

lemma good_ids_Nil: "good_ids py [] bs"
  by (simp add: good_ids_def)

lemma process_with_good:
  assumes keep: "\<And>b. f b ''father_balise'' = b ''father_balise''"
    and step: "group_step py step"
    and run: "group_by_with f py [0..<length bs] (bs, []) = (bs1, gs)"
    and k: "k \<noteq> []"
    and sup: "distinct (supplied_ids py bs (group_members py bs k))"
  shows "length (fold_groups step bs1 gs) = length bs"
    and "(fold_groups step bs1 gs ! j) ''father_balise'' = (bs ! j) ''father_balise''"
    and "good_ids py (group_members py bs k) (fold_groups step bs1 gs)"
proof -
  let ?n = "length bs"
  let ?G = "group_members py bs k"
  have d0: "distinct (map fst ([] :: groups))" by simp
  from group_by_with_spec [of f py "[0..<?n]" bs "[]" bs1 gs, OF keep run d0]
  have len1: "length bs1 = ?n"
    and unch: "\<And>j. father_id py (bs ! j) \<noteq> [] \<Longrightarrow> bs1 ! j = bs ! j"
    and fkey: "\<And>j. (bs1 ! j) ''father_balise'' = (bs ! j) ''father_balise''"
    and dk: "distinct (map fst gs)"
    and mo: "\<And>k. map_of gs k =
        (if k \<noteq> [] \<and> (\<exists>i\<in>set [0..<?n]. father_id py (bs ! i) = k)
         then Some (filter (\<lambda>i. father_id py (bs ! i) = k) [0..<?n]) else None)"
    by (simp_all add: members_def)
  have grp: "fst g \<noteq> [] \<and> snd g = group_members py bs (fst g)" if "g \<in> set gs" for g
  proof -
    from that have "(fst g, snd g) \<in> set gs" by simp
    with dk have "map_of gs (fst g) = Some (snd g)" by (rule map_of_is_SomeI)
    with mo [of "fst g"] show ?thesis by (auto simp: group_members_def split: if_splits)
  qed
  have wf: "wf_groups bs1 gs"
    unfolding wf_groups_def
  proof
    fix g assume "g \<in> set gs"
    from grp [OF this] have "snd g = group_members py bs (fst g)" by simp
    then show "distinct (snd g) \<and> (\<forall>i\<in>set (snd g). i < length bs1)"
      by (simp add: group_members_def len1)
  qed
  show "length (fold_groups step bs1 gs) = length bs"
    using length_fold_groups [OF step wf] len1 by simp
  show "(fold_groups step bs1 gs ! j) ''father_balise'' = (bs ! j) ''father_balise''"
    using fold_groups_father [OF step wf, of j] fkey by simp
  show "good_ids py ?G (fold_groups step bs1 gs)"
  proof (cases "?G = []")
    case True
    then show ?thesis by (simp add: good_ids_Nil)
  next
    case False
    then have "\<exists>i\<in>set [0..<?n]. father_id py (bs ! i) = k"
      by (auto simp: group_members_def filter_empty_conv)
    with mo [of k] k have "map_of gs k = Some ?G" by (simp add: group_members_def)
    then have in_gs: "(k, ?G) \<in> set gs" by (rule map_of_SomeD)
    have same: "bs1 ! i = bs ! i" if "i \<in> set ?G" for i
    proof (rule unch)
      from that k show "father_id py (bs ! i) \<noteq> []" by (simp add: group_members_def)
    qed
    then have "supplied_ids py bs1 ?G = supplied_ids py bs ?G"
      by (intro supplied_ids_cong) simp
    with sup have sup1: "distinct (supplied_ids py bs1 (snd (k, ?G)))" by simp
    have disj: "\<forall>g\<in>set gs. g = (k, ?G) \<or> set (snd g) \<inter> set (snd (k, ?G)) = {}"
    proof
      fix g assume g: "g \<in> set gs"
      from grp [OF g] have sg: "snd g = group_members py bs (fst g)" by simp
      show "g = (k, ?G) \<or> set (snd g) \<inter> set (snd (k, ?G)) = {}"
      proof (cases "fst g = k")
        case True
        with sg have "g = (k, ?G)" by (cases g) simp
        then show ?thesis by simp
      next
        case False
        with sg have "set (snd g) \<inter> set ?G = {}" by (auto simp: group_members_def)
        then show ?thesis by simp
      qed
    qed
    from dk have dist: "distinct gs" by (simp add: distinct_map)
    from fold_groups_good [OF step wf in_gs sup1 disj dist] show ?thesis by simp
  qed
qed

lemma process_balise_groups_fold:
  "group_by_father py [0..<length bs] (bs, []) = (bs1, gs) \<Longrightarrow>
     process_balise_groups py bs = fold_groups (process_group py) bs1 gs"
  by (simp add: process_balise_groups_def fold_groups_def)

lemma process_balise_ids_fold:
  "group_by_father_ids py [0..<length bs] (bs, []) = (bs1, gs) \<Longrightarrow>
     process_balise_ids py bs = fold_groups (process_group_ids py) bs1 gs"
  by (simp add: process_balise_ids_def fold_groups_def)

lemma group_members_cong:
  assumes "length bs' = length bs"
    and "\<And>j. (bs' ! j) ''father_balise'' = (bs ! j) ''father_balise''"
  shows "group_members py bs' k = group_members py bs k"
proof -
  have "father_id py (bs' ! j) = father_id py (bs ! j)" for j
    using assms(2) by (rule father_id_cong)
  with assms(1) show ?thesis by (simp add: group_members_def)
qed

lemma process_balise_groups_good:
  assumes "k \<noteq> []" "distinct (supplied_ids py bs (group_members py bs k))"
  shows "group_members py (process_balise_groups py bs) k = group_members py bs k"
    and "good_ids py (group_members py bs k) (process_balise_groups py bs)"
proof -
  obtain bs1 gs where run: "group_by_father py [0..<length bs] (bs, []) = (bs1, gs)"
    by (cases "group_by_father py [0..<length bs] (bs, [])") auto
  then have run': "group_by_with single py [0..<length bs] (bs, []) = (bs1, gs)"
    by (simp add: group_by_father_with)
  note eq = process_balise_groups_fold [OF run]
  note r = process_with_good [OF single_father group_step_process_group run' assms]
  show "group_members py (process_balise_groups py bs) k = group_members py bs k"
    unfolding eq by (rule group_members_cong) (rule r)+
  show "good_ids py (group_members py bs k) (process_balise_groups py bs)"
    unfolding eq by (rule r)
qed

lemma process_balise_ids_good:
  assumes "k \<noteq> []" "distinct (supplied_ids py bs (group_members py bs k))"
  shows "group_members py (process_balise_ids py bs) k = group_members py bs k"
    and "good_ids py (group_members py bs k) (process_balise_ids py bs)"
proof -
  obtain bs1 gs where run: "group_by_father_ids py [0..<length bs] (bs, []) = (bs1, gs)"
    by (cases "group_by_father_ids py [0..<length bs] (bs, [])") auto
  then have run': "group_by_with single_ids py [0..<length bs] (bs, []) = (bs1, gs)"
    by (simp add: group_by_father_ids_with)
  note eq = process_balise_ids_fold [OF run]
  note r = process_with_good [OF single_ids_father group_step_process_group_ids run' assms]
  show "group_members py (process_balise_ids py bs) k = group_members py bs k"
    unfolding eq by (rule group_members_cong) (rule r)+
  show "good_ids py (group_members py bs k) (process_balise_ids py bs)"
    unfolding eq by (rule r)
qed

text \<open>
  C3 (as amended). For every roster and every non-empty father id \<open>k\<close> whose members
  bring pairwise distinct numeric sub ids, after \<open>process_balise_groups\<close>, and likewise
  after the widget's \<open>process_balise_ids\<close>, the group has the same members, each
  member's sub id is a non-negative integer, and these integers are pairwise distinct.
\<close>

theorem assigned_sub_ids_distinct:
  "k \<noteq> [] \<Longrightarrow> distinct (supplied_ids py bs (group_members py bs k)) \<Longrightarrow>
   bs' = process_balise_groups py bs \<or> bs' = process_balise_ids py bs \<Longrightarrow>
     group_members py bs' k = group_members py bs k \<and>
     (\<forall>i\<in>set (group_members py bs' k). \<exists>v. sub_id_int py (bs' ! i) = Some v \<and> 0 \<le> v) \<and>
     distinct (map (\<lambda>i. sub_id_int py (bs' ! i)) (group_members py bs' k))"
proof -
  assume k: "k \<noteq> []" and s: "distinct (supplied_ids py bs (group_members py bs k))"
    and b: "bs' = process_balise_groups py bs \<or> bs' = process_balise_ids py bs"
  from b have "group_members py bs' k = group_members py bs k
      \<and> good_ids py (group_members py bs k) bs'"
    using process_balise_groups_good [OF k s] process_balise_ids_good [OF k s] by auto
  then show ?thesis by (simp add: good_ids_def)
qed

theorem assigned_sub_ids_distinct_witness:
  "''A'' \<noteq> [] \<and>
   supplied_ids py0
     [[''name'' \<mapsto> StrV ''A'', ''father_balise'' \<mapsto> StrV ''''],
      [''name'' \<mapsto> StrV ''B'', ''father_balise'' \<mapsto> StrV ''A''],
      [''name'' \<mapsto> StrV ''C'', ''father_balise'' \<mapsto> StrV ''A'', ''sub_id'' \<mapsto> StrV ''0'']]
     [1, 2] = [0] \<and>
   group_members py0 (process_balise_groups py0
     [[''name'' \<mapsto> StrV ''A'', ''father_balise'' \<mapsto> StrV ''''],
      [''name'' \<mapsto> StrV ''B'', ''father_balise'' \<mapsto> StrV ''A''],
      [''name'' \<mapsto> StrV ''C'', ''father_balise'' \<mapsto> StrV ''A'', ''sub_id'' \<mapsto> StrV ''0'']])
     ''A'' = [1, 2] \<and>
   map (sub_id_int py0) (process_balise_groups py0
     [[''name'' \<mapsto> StrV ''A'', ''father_balise'' \<mapsto> StrV ''''],
      [''name'' \<mapsto> StrV ''B'', ''father_balise'' \<mapsto> StrV ''A''],
      [''name'' \<mapsto> StrV ''C'', ''father_balise'' \<mapsto> StrV ''A'', ''sub_id'' \<mapsto> StrV ''0'']])
     = [Some 0, Some 1, Some 0]"
proof -
  let ?bs = "[[''name'' \<mapsto> StrV ''A'', ''father_balise'' \<mapsto> StrV ''''],
      [''name'' \<mapsto> StrV ''B'', ''father_balise'' \<mapsto> StrV ''A''],
      [''name'' \<mapsto> StrV ''C'', ''father_balise'' \<mapsto> StrV ''A'', ''sub_id'' \<mapsto> StrV ''0'']]"
  have k: "''A'' \<noteq> []" by simp
  have g: "group_members py0 ?bs ''A'' = [1, 2]" by code_simp
  have s: "supplied_ids py0 ?bs [1, 2] = [0]" by code_simp
  from s g have d: "distinct (supplied_ids py0 ?bs (group_members py0 ?bs ''A''))" by simp
  have b: "process_balise_groups py0 ?bs = process_balise_groups py0 ?bs
      \<or> process_balise_groups py0 ?bs = process_balise_ids py0 ?bs" by simp
  from assigned_sub_ids_distinct [OF k d b] g
  have m: "group_members py0 (process_balise_groups py0 ?bs) ''A'' = [1, 2]" by simp
  have v: "map (sub_id_int py0) (process_balise_groups py0 ?bs) = [Some 0, Some 1, Some 0]"
    by code_simp
  from k s m v show ?thesis by simp
qed

text \<open>
  C3 as stated fails when the caller supplies a sub id twice: two records of the group
  \<open>G\<close> that both come with sub id \<open>0\<close> both keep it, in either function.
\<close>

theorem supplied_duplicate_sub_ids_counterexample:
  "group_members py0 (process_balise_groups py0
      [[''father_balise'' \<mapsto> StrV ''G'', ''sub_id'' \<mapsto> StrV ''0''],
       [''father_balise'' \<mapsto> StrV ''G'', ''sub_id'' \<mapsto> StrV ''0'']]) ''G'' = [0, 1] \<and>
   map (sub_id_int py0) (process_balise_groups py0
      [[''father_balise'' \<mapsto> StrV ''G'', ''sub_id'' \<mapsto> StrV ''0''],
       [''father_balise'' \<mapsto> StrV ''G'', ''sub_id'' \<mapsto> StrV ''0'']]) = [Some 0, Some 0] \<and>
   map (sub_id_int py0) (process_balise_ids py0
      [[''father_balise'' \<mapsto> StrV ''G'', ''sub_id'' \<mapsto> StrV ''0''],
       [''father_balise'' \<mapsto> StrV ''G'', ''sub_id'' \<mapsto> StrV ''0'']]) = [Some 0, Some 0]"
  by code_simp

text \<open>
  C8. On the roster of A (no father), B (father A) and C (father A, sub id 0) the first loop
  forms the single group A with the members B and C (positions 1 and 2); afterwards A has
  sub id 0, total 1 and link 0, B has sub id 1 and C keeps sub id 0, both with total 2 and
  link 1.
\<close>

theorem three_balise_roster_example:
  "snd (group_by_father py [0..<3]
      ([[''name'' \<mapsto> StrV ''A'', ''father_balise'' \<mapsto> StrV ''''],
        [''name'' \<mapsto> StrV ''B'', ''father_balise'' \<mapsto> StrV ''A''],
        [''name'' \<mapsto> StrV ''C'', ''father_balise'' \<mapsto> StrV ''A'', ''sub_id'' \<mapsto> StrV ''0'']], []))
     = [(''A'', [1, 2])] \<and>
   map (\<lambda>b. map b [''name'', ''sub_id'', ''n_total'', ''q_link''])
     (process_balise_groups py
       [[''name'' \<mapsto> StrV ''A'', ''father_balise'' \<mapsto> StrV ''''],
        [''name'' \<mapsto> StrV ''B'', ''father_balise'' \<mapsto> StrV ''A''],
        [''name'' \<mapsto> StrV ''C'', ''father_balise'' \<mapsto> StrV ''A'', ''sub_id'' \<mapsto> StrV ''0'']])
     = [[Some (StrV ''A''), Some (StrV ''0''), Some (StrV ''1''), Some (StrV ''0'')],
        [Some (StrV ''B''), Some (StrV ''1''), Some (StrV ''2''), Some (StrV ''1'')],
        [Some (StrV ''C''), Some (StrV ''0''), Some (StrV ''2''), Some (StrV ''1'')]]"
  by code_simp

text \<open>
  C7 does not hold of the code: a group member with sub id 8 gets the four characters
  \<open>1000\<close> as \<^verbatim>\<open>n_pig\<close>, not the three characters of 8 modulo 8, which is what the
  dialog computes from the same sub id.
\<close>

theorem n_pig_four_characters:
  "map (\<lambda>b. map b [''sub_id'', ''n_pig''])
     (process_balise_groups py [[''father_balise'' \<mapsto> StrV ''G'', ''sub_id'' \<mapsto> StrV ''8'']])
     = [[Some (StrV ''8''), Some (StrV ''1000'')]] \<and>
   dialog_n_pig 8 = ''000''"
  by code_simp

section \<open>Properties of balise passes and signal authorization\<close>

lemma decode_ctcs2_short:
  "length s \<le> 8 \<Longrightarrow> decode_packet ''CTCS-2'' s = Inr (Decoded Map.empty)"
  by (simp add: decode_packet_def PACKET_DEFS_def CTCS_2_def field_makers decode_field_def
      present_def dstate0_def)

lemma decode_etcs27_short:
  assumes "length s \<le> 8" "decode_packet ''ETCS-27'' s = Inr (Decoded d)"
  shows "d ''V_STATIC'' = None"
proof (cases "length s < 8")
  case True
  with assms(2) show ?thesis
    by (auto simp: decode_packet_def PACKET_DEFS_def ETCS_27_def field_makers decode_field_def
        present_def dstate0_def)
next
  case False
  with assms(1) have "length s = 8" by simp
  with assms(2) show ?thesis
    by (auto simp: decode_packet_def PACKET_DEFS_def ETCS_27_def field_makers decode_field_def
        present_def dstate0_def split: sum.splits)
qed

lemma pass_ctcs2_appends:
  assumes "eb ''CTCS-2'' = Some (StrV val)" "decode_packet ''CTCS-2'' val = Inr (Decoded d)"
    "d ''Q_SCALE'' = Some 1" "d ''D_TSR'' = Some 0" "d ''L_TSR'' = Some 100"
    "d ''V_TSR'' = Some 20" "py_num rnd b_loc = Some b"
    "rnd 0 = 0" "rnd 100 = 100" "rnd b = b" "active_restrictions t = Some rs"
  shows "pass_ctcs2 rnd b_loc eb (t, lg)
     = (t\<lparr>active_restrictions := Some (rs @ [tsr_100 rnd b])\<rparr>, lg @ [''CTCS-2''])"
proof -
  have "8 < length val"
  proof (rule ccontr)
    assume "\<not> 8 < length val"
    then have "decode_packet ''CTCS-2'' val = Inr (Decoded Map.empty)"
      by (simp add: decode_ctcs2_short)
    with assms(2,5) show False by auto
  qed
  with assms show ?thesis
    by (simp add: pass_ctcs2_def decoded_fields_def dict_get_def get_q_scale_factor_def
        tsr_100_def Let_def)
qed

lemma pass_etcs27_base:
  assumes "eb ''ETCS-27'' = Some (StrV val)" "decode_packet ''ETCS-27'' val = Inr (Decoded d)"
    "d ''V_STATIC'' = Some v" "py_num rnd b_loc = Some b"
  shows "pass_etcs27 rnd w b_loc eb (t, lg)
     = (t\<lparr>base_speed := Some (if v = 127 then (case max_speed w of None \<Rightarrow> 350 | Some m \<Rightarrow> m)
                               else of_int (v * 5))\<rparr>,
        lg @ [''ETCS-27''])"
proof -
  have "8 < length val"
  proof (rule ccontr)
    assume "\<not> 8 < length val"
    then have "length val \<le> 8" by simp
    from decode_etcs27_short [OF this assms(2)] assms(3) show False by simp
  qed
  with assms show ?thesis
    by (simp add: pass_etcs27_def decoded_fields_def dict_get_def default_max_def Let_def)
qed

lemma pass_etcs27_restrictions:
  "active_restrictions (fst (pass_etcs27 rnd w b_loc eb (t, lg))) = active_restrictions t"
  by (simp add: pass_etcs27_def Let_def split: option.splits pyval.splits sum.splits)

lemma pass_fallback_restrictions:
  "active_restrictions (pass_fallback py eb st) = active_restrictions (fst st)"
  by (cases st) (simp add: pass_fallback_def split: option.splits sum.splits)

lemma pass_fallback_logged: "lg \<noteq> [] \<Longrightarrow> pass_fallback py eb (t, lg) = t"
  by (simp add: pass_fallback_def)

lemma pass_ctcs5_restrictions:
  "active_restrictions t = Some rs \<Longrightarrow>
     \<exists>t1 lg. pass_ctcs5 eb (t, []) = (t1, lg) \<and>
       active_restrictions t1 = Some (if eb ''CTCS-5'' = None then rs else [])"
  by (simp add: pass_ctcs5_def)

lemma check_restrictions_tsr_inside:
  assumes "active_restrictions u = Some [tsr_100 rnd b]" "current_location u = Some loc"
    "b \<le> loc" "loc \<le> rnd (b + rnd (1 / 10))"
  shows "current_speed_limit (check_restrictions w u) = Some (min (base_of w u) 100)"
  using assms by (simp add: check_restrictions_def expired_def tsr_100_def base_of_def Let_def min_def)

lemma check_restrictions_tsr_past:
  assumes "active_restrictions u = Some [tsr_100 rnd b]" "current_location u = Some loc"
    "rnd (b + rnd (1 / 10)) < loc"
  shows "current_speed_limit (check_restrictions w u) = Some (base_of w u)"
    and "active_restrictions (check_restrictions w u) = Some []"
  using assms by (simp_all add: check_restrictions_def expired_def tsr_100_def base_of_def Let_def)

text \<open>
  C4. Let \<open>rnd\<close> be the rounding of float arithmetic, and let the floats 0 and 100 and the
  balise location \<open>b\<close> be floats, that is, left as they are by \<open>rnd\<close>. When a train that
  carries the list \<^verbatim>\<open>active_restrictions\<close> passes a balise at the location \<open>b\<close> whose
  effective CTCS-2 telegram decodes to Q\_SCALE 1, D\_TSR 0, L\_TSR 100 and V\_TSR 20, the
  restriction with \<^verbatim>\<open>start_km\<close> \<open>b\<close>, \<^verbatim>\<open>end_km\<close> the float sum of \<open>b\<close> and the float
  \<^verbatim>\<open>0.1\<close>, and speed 100 km/h is appended; and with this restriction alone,
  \<^verbatim>\<open>check_restrictions\<close> sets the speed limit to the minimum of the base speed and 100 while
  the location is between \<open>b\<close> and that \<^verbatim>\<open>end_km\<close>, and to the base speed, dropping the
  restriction, once the location is greater than that \<^verbatim>\<open>end_km\<close>. The window ends at the
  float \<^verbatim>\<open>b + 0.1\<close> of the program, which need not be the real number \<open>b + 1 / 10\<close>.
\<close>

theorem ctcs2_restriction_window:
  "effective_balise_of py w balise index = Inr eb \<Longrightarrow>
   eb ''CTCS-2'' = Some (StrV val) \<Longrightarrow> decode_packet ''CTCS-2'' val = Inr (Decoded d) \<Longrightarrow>
   d ''Q_SCALE'' = Some 1 \<Longrightarrow> d ''D_TSR'' = Some 0 \<Longrightarrow> d ''L_TSR'' = Some 100 \<Longrightarrow>
   d ''V_TSR'' = Some 20 \<Longrightarrow>
   py_num rnd (dict_get balise ''location'' (FloatV 0)) = Some b \<Longrightarrow>
   rnd 0 = 0 \<Longrightarrow> rnd 100 = 100 \<Longrightarrow> rnd b = b \<Longrightarrow>
   active_restrictions t = Some rs \<Longrightarrow>
     (\<exists>t'. handle_balise_pass py rnd w t balise index = Inr t' \<and>
        active_restrictions t'
          = Some ((if eb ''CTCS-5'' = None then rs else []) @ [tsr_100 rnd b])) \<and>
     (\<forall>u loc. active_restrictions u = Some [tsr_100 rnd b] \<longrightarrow> current_location u = Some loc \<longrightarrow>
        (b \<le> loc \<and> loc \<le> rnd (b + rnd (1 / 10)) \<longrightarrow>
           current_speed_limit (check_restrictions w u) = Some (min (base_of w u) 100)) \<and>
        (rnd (b + rnd (1 / 10)) < loc \<longrightarrow>
           current_speed_limit (check_restrictions w u) = Some (base_of w u) \<and>
           active_restrictions (check_restrictions w u) = Some []))"
proof -
  assume eb: "effective_balise_of py w balise index = Inr eb"
    and c2: "eb ''CTCS-2'' = Some (StrV val)" "decode_packet ''CTCS-2'' val = Inr (Decoded d)"
      "d ''Q_SCALE'' = Some 1" "d ''D_TSR'' = Some 0" "d ''L_TSR'' = Some 100"
      "d ''V_TSR'' = Some 20"
    and loc: "py_num rnd (dict_get balise ''location'' (FloatV 0)) = Some b"
    and fl: "rnd 0 = 0" "rnd 100 = 100" "rnd b = b"
    and rs: "active_restrictions t = Some rs"
  let ?b_loc = "dict_get balise ''location'' (FloatV 0)"
  let ?rs = "if eb ''CTCS-5'' = None then rs else []"
  from pass_ctcs5_restrictions [OF rs, of eb] obtain t1 lg
    where p5: "pass_ctcs5 eb (t, []) = (t1, lg)" and r1: "active_restrictions t1 = Some ?rs"
    by blast
  have p2: "pass_ctcs2 rnd ?b_loc eb (t1, lg)
      = (t1\<lparr>active_restrictions := Some (?rs @ [tsr_100 rnd b])\<rparr>, lg @ [''CTCS-2''])"
    by (rule pass_ctcs2_appends [where eb = eb and d = d, OF c2 loc fl r1])
  have "active_restrictions (handle_packets py rnd w t ?b_loc eb) = Some (?rs @ [tsr_100 rnd b])"
    unfolding handle_packets_def p5 p2
    by (simp add: pass_fallback_restrictions pass_etcs27_restrictions)
  with eb have first: "\<exists>t'. handle_balise_pass py rnd w t balise index = Inr t' \<and>
        active_restrictions t' = Some (?rs @ [tsr_100 rnd b])"
    by (simp add: handle_balise_pass_def Let_def)
  from first check_restrictions_tsr_inside check_restrictions_tsr_past show ?thesis
    by blast
qed

text \<open>
  C6. When a train passes a balise at a numeric location whose effective ETCS-27 telegram
  decodes and holds V\_STATIC, the base speed becomes the \<^verbatim>\<open>max_speed\<close> of the line
  configuration (350 when the configuration has none) if V\_STATIC is 127, and V\_STATIC
  times 5 otherwise, whatever D\_STATIC is.
\<close>

theorem etcs27_sets_base_speed:
  "effective_balise_of py w balise index = Inr eb \<Longrightarrow>
   eb ''ETCS-27'' = Some (StrV val) \<Longrightarrow> decode_packet ''ETCS-27'' val = Inr (Decoded d) \<Longrightarrow>
   d ''V_STATIC'' = Some v \<Longrightarrow>
   py_num rnd (dict_get balise ''location'' (FloatV 0)) = Some b \<Longrightarrow>
     \<exists>t'. handle_balise_pass py rnd w t balise index = Inr t' \<and>
          base_speed t'
            = Some (if v = 127 then (case max_speed w of None \<Rightarrow> 350 | Some m \<Rightarrow> m)
                    else of_int (v * 5))"
proof -
  assume eb: "effective_balise_of py w balise index = Inr eb"
    and e: "eb ''ETCS-27'' = Some (StrV val)" "decode_packet ''ETCS-27'' val = Inr (Decoded d)"
      "d ''V_STATIC'' = Some v"
    and loc: "py_num rnd (dict_get balise ''location'' (FloatV 0)) = Some b"
  let ?b_loc = "dict_get balise ''location'' (FloatV 0)"
  obtain t2 lg where p: "pass_ctcs2 rnd ?b_loc eb (pass_ctcs5 eb (t, [])) = (t2, lg)"
    by (cases "pass_ctcs2 rnd ?b_loc eb (pass_ctcs5 eb (t, []))") auto
  have "base_speed (handle_packets py rnd w t ?b_loc eb)
      = Some (if v = 127 then (case max_speed w of None \<Rightarrow> 350 | Some m \<Rightarrow> m)
              else of_int (v * 5))"
    unfolding handle_packets_def p pass_etcs27_base [where eb = eb and d = d, OF e loc]
    by (simp add: pass_fallback_logged)
  with eb show ?thesis by (simp add: handle_balise_pass_def Let_def)
qed

lemmas decode_eval =
  decode_packet_def PACKET_DEFS_def CTCS_2_def ETCS_27_def field_makers dstate0_def
  decode_field_def present_def bin_to_int_def bitstring_def is_bit_def bits_value_def

theorem ctcs2_restriction_window_witness:
  "effective_balise_of py0 empty_widget
     [''location'' \<mapsto> FloatV (3152519739159347 / 4503599627370496),
      ''CTCS-2'' \<mapsto> StrV ''0000000100101001010000000000000000000000000110010000000000000000000000'']
     (- 1)
     = Inr [''location'' \<mapsto> FloatV (3152519739159347 / 4503599627370496),
      ''CTCS-2'' \<mapsto> StrV ''0000000100101001010000000000000000000000000110010000000000000000000000''] \<and>
   (\<exists>t'. handle_balise_pass py0 rnd_example empty_widget fresh_train
       [''location'' \<mapsto> FloatV (3152519739159347 / 4503599627370496),
        ''CTCS-2'' \<mapsto> StrV ''0000000100101001010000000000000000000000000110010000000000000000000000'']
       (- 1) = Inr t' \<and>
      active_restrictions t'
        = Some [\<lparr>r_type = ''CTCS-2'', start_km = 3152519739159347 / 4503599627370496,
                 end_km = Some (7205759403792793 / 9007199254740992), speed = 100\<rparr>]) \<and>
   current_speed_limit (check_restrictions empty_widget
      (fresh_train\<lparr>current_location := Some (3 / 4),
         active_restrictions := Some [tsr_100 rnd_example (3152519739159347 / 4503599627370496)]\<rparr>))
     = Some 100 \<and>
   current_speed_limit (check_restrictions empty_widget
      (fresh_train\<lparr>current_location := Some (3602879701896397 / 4503599627370496),
         active_restrictions := Some [tsr_100 rnd_example (3152519739159347 / 4503599627370496)]\<rparr>))
     = Some 350 \<and>
   active_restrictions (check_restrictions empty_widget
      (fresh_train\<lparr>current_location := Some (3602879701896397 / 4503599627370496),
         active_restrictions := Some [tsr_100 rnd_example (3152519739159347 / 4503599627370496)]\<rparr>))
     = Some []"
proof -
  let ?tel = "''0000000100101001010000000000000000000000000110010000000000000000000000''"
  let ?b = "3152519739159347 / 4503599627370496 :: real"
  let ?bal = "[''location'' \<mapsto> FloatV ?b, ''CTCS-2'' \<mapsto> StrV ?tel]"
  let ?d = "[''NID_XUSER'' \<mapsto> 2, ''Q_DIR'' \<mapsto> 1, ''Q_SCALE'' \<mapsto> 1, ''V_TSR'' \<mapsto> 20,
             ''D_TSR'' \<mapsto> 0, ''L_TSR'' \<mapsto> 100, ''L_TSRarea'' \<mapsto> 0, ''N_ITER'' \<mapsto> (0::int)]"
  let ?r = "tsr_100 rnd_example ?b"
  let ?u1 = "fresh_train\<lparr>current_location := Some (3 / 4), active_restrictions := Some [?r]\<rparr>"
  let ?u2 = "fresh_train\<lparr>current_location := Some (3602879701896397 / 4503599627370496),
               active_restrictions := Some [?r]\<rparr>"
  have eb: "effective_balise_of py0 empty_widget ?bal (- 1) = Inr ?bal"
    by (simp add: effective_balise_of_def)
  have tel: "?bal ''CTCS-2'' = Some (StrV ?tel)" by simp
  have dec: "decode_packet ''CTCS-2'' ?tel = Inr (Decoded ?d)" by (simp add: decode_eval)
  have d: "?d ''Q_SCALE'' = Some 1" "?d ''D_TSR'' = Some 0" "?d ''L_TSR'' = Some 100"
    "?d ''V_TSR'' = Some 20" by simp_all
  have loc: "py_num rnd_example (dict_get ?bal ''location'' (FloatV 0)) = Some ?b"
    by (simp add: dict_get_def)
  have fl: "rnd_example 0 = 0" "rnd_example 100 = 100" "rnd_example ?b = ?b"
    by (simp_all add: rnd_example_def)
  have end_km: "rnd_example (?b + rnd_example (1 / 10)) = 7205759403792793 / 9007199254740992"
    by (simp add: rnd_example_def)
  have rs: "active_restrictions fresh_train = Some []" by (simp add: fresh_train_def)
  note win = ctcs2_restriction_window [where d = "?d" and eb = "?bal", OF eb tel dec d loc fl rs]
  from win have 1: "\<exists>t'. handle_balise_pass py0 rnd_example empty_widget fresh_train ?bal (- 1)
        = Inr t' \<and>
      active_restrictions t'
        = Some [\<lparr>r_type = ''CTCS-2'', start_km = ?b,
                 end_km = Some (7205759403792793 / 9007199254740992), speed = 100\<rparr>]"
    by (simp add: tsr_100_def end_km)
  have base: "base_of empty_widget ?u1 = 350" "base_of empty_widget ?u2 = 350"
    by (simp_all add: base_of_def fresh_train_def default_max_def empty_widget_def)
  have u1: "active_restrictions ?u1 = Some [?r]" "current_location ?u1 = Some (3 / 4)"
    "?b \<le> 3 / 4 \<and> 3 / 4 \<le> rnd_example (?b + rnd_example (1 / 10))"
    unfolding end_km by simp_all
  have u2: "active_restrictions ?u2 = Some [?r]"
    "current_location ?u2 = Some (3602879701896397 / 4503599627370496)"
    "rnd_example (?b + rnd_example (1 / 10)) < 3602879701896397 / 4503599627370496"
    unfolding end_km by simp_all
  from win u1 have "current_speed_limit (check_restrictions empty_widget ?u1)
      = Some (min (base_of empty_widget ?u1) 100)"
    by blast
  with base have 2: "current_speed_limit (check_restrictions empty_widget ?u1) = Some 100"
    by simp
  from win u2 have "current_speed_limit (check_restrictions empty_widget ?u2)
      = Some (base_of empty_widget ?u2) \<and>
    active_restrictions (check_restrictions empty_widget ?u2) = Some []"
    by blast
  with base have 3: "current_speed_limit (check_restrictions empty_widget ?u2) = Some 350"
    and 4: "active_restrictions (check_restrictions empty_widget ?u2) = Some []"
    by simp_all
  from eb 1 2 3 4 show ?thesis by blast
qed

theorem etcs27_sets_base_speed_witness:
  "effective_balise_of py0 (empty_widget\<lparr>max_speed := Some 200\<rparr>)
     [''location'' \<mapsto> FloatV 12,
      ''ETCS-27'' \<mapsto> StrV ''00011011010100000000000011111111110000000000''] (- 1)
     = Inr [''location'' \<mapsto> FloatV 12,
      ''ETCS-27'' \<mapsto> StrV ''00011011010100000000000011111111110000000000''] \<and>
   (\<exists>t'. handle_balise_pass py0 (\<lambda>x. x) (empty_widget\<lparr>max_speed := Some 200\<rparr>) fresh_train
       [''location'' \<mapsto> FloatV 12,
        ''ETCS-27'' \<mapsto> StrV ''00011011010100000000000011111111110000000000''] (- 1) = Inr t' \<and>
      base_speed t' = Some 200) \<and>
   (\<exists>t'. handle_balise_pass py0 (\<lambda>x. x) empty_widget fresh_train
       [''location'' \<mapsto> FloatV 12,
        ''ETCS-27'' \<mapsto> StrV ''00011011010100000000000011111111110000000000''] (- 1) = Inr t' \<and>
      base_speed t' = Some 350) \<and>
   (\<exists>t'. handle_balise_pass py0 (\<lambda>x. x) (empty_widget\<lparr>max_speed := Some 200\<rparr>) fresh_train
       [''location'' \<mapsto> FloatV 12,
        ''ETCS-27'' \<mapsto> StrV ''00011011010100000000000011100101000000000000''] (- 1) = Inr t' \<and>
      base_speed t' = Some 100)"
proof -
  let ?max = "''00011011010100000000000011111111110000000000''"
  let ?tel = "''00011011010100000000000011100101000000000000''"
  let ?w = "empty_widget\<lparr>max_speed := Some 200\<rparr>"
  let ?balmax = "[''location'' \<mapsto> FloatV 12, ''ETCS-27'' \<mapsto> StrV ?max]"
  let ?bal = "[''location'' \<mapsto> FloatV 12, ''ETCS-27'' \<mapsto> StrV ?tel]"
  let ?dmax = "[''NID_PACKET'' \<mapsto> 27, ''Q_DIR'' \<mapsto> 1, ''Q_SCALE'' \<mapsto> 1, ''D_STATIC'' \<mapsto> 7,
             ''V_STATIC'' \<mapsto> 127, ''Q_FRONT'' \<mapsto> 0, ''NC_DIFF'' \<mapsto> 0, ''N_ITER'' \<mapsto> (0::int)]"
  let ?d = "[''NID_PACKET'' \<mapsto> 27, ''Q_DIR'' \<mapsto> 1, ''Q_SCALE'' \<mapsto> 1, ''D_STATIC'' \<mapsto> 7,
             ''V_STATIC'' \<mapsto> 20, ''Q_FRONT'' \<mapsto> 0, ''NC_DIFF'' \<mapsto> 0, ''N_ITER'' \<mapsto> (0::int)]"
  have ebmax: "effective_balise_of py0 ?w ?balmax (- 1) = Inr ?balmax"
    "effective_balise_of py0 empty_widget ?balmax (- 1) = Inr ?balmax"
    by (simp_all add: effective_balise_of_def)
  have eb: "effective_balise_of py0 ?w ?bal (- 1) = Inr ?bal"
    by (simp add: effective_balise_of_def)
  have telmax: "?balmax ''ETCS-27'' = Some (StrV ?max)" by simp
  have tel: "?bal ''ETCS-27'' = Some (StrV ?tel)" by simp
  have decmax: "decode_packet ''ETCS-27'' ?max = Inr (Decoded ?dmax)" by (simp add: decode_eval)
  have dec: "decode_packet ''ETCS-27'' ?tel = Inr (Decoded ?d)" by (simp add: decode_eval)
  have dmax: "?dmax ''V_STATIC'' = Some 127" by simp
  have d: "?d ''V_STATIC'' = Some 20" by simp
  have locmax: "py_num (\<lambda>x. x) (dict_get ?balmax ''location'' (FloatV 0)) = Some 12"
    by (simp add: dict_get_def)
  have loc: "py_num (\<lambda>x. x) (dict_get ?bal ''location'' (FloatV 0)) = Some 12"
    by (simp add: dict_get_def)
  from etcs27_sets_base_speed [where d = "?dmax" and eb = "?balmax",
      OF ebmax(1) telmax decmax dmax locmax, of fresh_train]
  have 1: "\<exists>t'. handle_balise_pass py0 (\<lambda>x. x) ?w fresh_train ?balmax (- 1) = Inr t' \<and>
      base_speed t' = Some 200" by simp
  from etcs27_sets_base_speed [where d = "?dmax" and eb = "?balmax",
      OF ebmax(2) telmax decmax dmax locmax, of fresh_train]
  have 2: "\<exists>t'. handle_balise_pass py0 (\<lambda>x. x) empty_widget fresh_train ?balmax (- 1) = Inr t' \<and>
      base_speed t' = Some 350" by (simp add: empty_widget_def)
  from etcs27_sets_base_speed [where d = "?d" and eb = "?bal", OF eb tel dec d loc,
      of fresh_train]
  have 3: "\<exists>t'. handle_balise_pass py0 (\<lambda>x. x) ?w fresh_train ?bal (- 1) = Inr t' \<and>
      base_speed t' = Some 100" by simp
  from ebmax(1) 1 2 3 show ?thesis by blast
qed

lemma not_relevant_not_authorizing:
  "train_relevance py w b t = Inr (False, s, target) \<Longrightarrow> train_authorizes py w b i dt t = Inr False"
  by (simp add: train_authorizes_def)

lemma scan_trains_none:
  "\<forall>t\<in>set ts. train_authorizes py w b i dt t = Inr False \<Longrightarrow>
     scan_trains py w b i dt ts = Inr False"
  by (induction ts) simp_all

text \<open>
  C5. For a balise whose CTCS-5 value is not blank, if every train of the roster either
  does not authorize green or is not relevant (in particular if the roster is empty), the
  result is the balise's dictionary with every other packet-type key removed and every
  other key, CTCS-5 included, unchanged.
\<close>

theorem red_content_without_authorization:
  "py_index (balises w) i = Inr b \<Longrightarrow> b ''CTCS-5'' = Some v \<Longrightarrow> strip (py_str py v) \<noteq> [] \<Longrightarrow>
   dt = (case ct of Some c \<Rightarrow> c | None \<Rightarrow> now w) \<Longrightarrow>
   (\<forall>t\<in>set (trains w). train_authorizes py w b i dt t = Inr False \<or>
        (\<exists>s target. train_relevance py w b t = Inr (False, s, target))) \<Longrightarrow>
     \<exists>r. get_effective_balise_packets py w i ct = Inr r \<and> r ''CTCS-5'' = Some v \<and>
         (\<forall>k\<in>set PACKET_TYPE_MAP_keys. k \<noteq> ''CTCS-5'' \<longrightarrow> r k = None) \<and>
         (\<forall>k. k \<notin> set PACKET_TYPE_MAP_keys \<longrightarrow> r k = b k)"
proof -
  assume b: "py_index (balises w) i = Inr b" and v: "b ''CTCS-5'' = Some v"
    and ne: "strip (py_str py v) \<noteq> []"
    and dt: "dt = (case ct of Some c \<Rightarrow> c | None \<Rightarrow> now w)"
    and no: "\<forall>t\<in>set (trains w). train_authorizes py w b i dt t = Inr False \<or>
        (\<exists>s target. train_relevance py w b t = Inr (False, s, target))"
  from no have "\<forall>t\<in>set (trains w). train_authorizes py w b i dt t = Inr False"
    using not_relevant_not_authorizing by blast
  then have "scan_trains py w b i dt (trains w) = Inr False" by (rule scan_trains_none)
  with b v ne dt have "get_effective_balise_packets py w i ct = Inr (red_packets b)"
    by (simp add: get_effective_balise_packets_def Let_def)
  moreover have "red_packets b ''CTCS-5'' = Some v" using v by (simp add: red_packets_def)
  moreover have "\<forall>k\<in>set PACKET_TYPE_MAP_keys. k \<noteq> ''CTCS-5'' \<longrightarrow> red_packets b k = None"
    by (simp add: red_packets_def)
  moreover have "\<forall>k. k \<notin> set PACKET_TYPE_MAP_keys \<longrightarrow> red_packets b k = b k"
    by (simp add: red_packets_def)
  ultimately show ?thesis by blast
qed

theorem red_content_without_authorization_witness:
  "py_index (balises (empty_widget\<lparr>balises :=
       [[''name'' \<mapsto> StrV ''X1'', ''CTCS-5'' \<mapsto> StrV ''000000101011'',
         ''ETCS-27'' \<mapsto> StrV ''00011011'']]\<rparr>)) 0
     = Inr [''name'' \<mapsto> StrV ''X1'', ''CTCS-5'' \<mapsto> StrV ''000000101011'',
            ''ETCS-27'' \<mapsto> StrV ''00011011''] \<and>
   strip (py_str py0 (StrV ''000000101011'')) \<noteq> [] \<and>
   (\<exists>r. get_effective_balise_packets py0 (empty_widget\<lparr>balises :=
       [[''name'' \<mapsto> StrV ''X1'', ''CTCS-5'' \<mapsto> StrV ''000000101011'',
         ''ETCS-27'' \<mapsto> StrV ''00011011'']]\<rparr>) 0 None = Inr r \<and>
      r ''CTCS-5'' = Some (StrV ''000000101011'') \<and> r ''ETCS-27'' = None \<and>
      r ''name'' = Some (StrV ''X1''))"
proof -
  let ?b = "[''name'' \<mapsto> StrV ''X1'', ''CTCS-5'' \<mapsto> StrV ''000000101011'',
            ''ETCS-27'' \<mapsto> StrV ''00011011'']"
  let ?w = "empty_widget\<lparr>balises := [?b]\<rparr>"
  have i: "py_index (balises ?w) 0 = Inr ?b" by (simp add: py_index_def)
  have v: "?b ''CTCS-5'' = Some (StrV ''000000101011'')" by simp
  have ne: "strip (py_str py0 (StrV ''000000101011'')) \<noteq> []" by code_simp
  have dt: "now ?w = (case None of Some c \<Rightarrow> c | None \<Rightarrow> now ?w)" by simp
  have no: "\<forall>t\<in>set (trains ?w). train_authorizes py0 ?w ?b 0 (now ?w) t = Inr False \<or>
        (\<exists>s target. train_relevance py0 ?w ?b t = Inr (False, s, target))"
    by (simp add: empty_widget_def)
  from red_content_without_authorization [OF i v ne dt no] obtain r
    where r: "get_effective_balise_packets py0 ?w 0 None = Inr r"
      "r ''CTCS-5'' = Some (StrV ''000000101011'')"
      "\<forall>k\<in>set PACKET_TYPE_MAP_keys. k \<noteq> ''CTCS-5'' \<longrightarrow> r k = None"
      "\<forall>k. k \<notin> set PACKET_TYPE_MAP_keys \<longrightarrow> r k = ?b k"
    by blast
  from r(3) have "r ''ETCS-27'' = None" by (simp add: PACKET_TYPE_MAP_keys_def)
  moreover from r(4) have "r ''name'' = Some (StrV ''X1'')"
    by (simp add: PACKET_TYPE_MAP_keys_def)
  ultimately show ?thesis using i ne r(1,2) by blast
qed

end
